theory Spec2Isabelle
  imports Main "HOL-Library.Multiset"
begin

section \<open>The Sudoku board and Python's list operations\<close>

text \<open>
  The program of \<^verbatim>\<open>sudoku.py\<close> works on a board that is a Python list of rows, each
  row a list of integers, 0 meaning an empty cell. The model is a value of type
  \<open>int list list\<close>: the rows are taken to be distinct list objects, as in the
  literal grid the program builds. An index that is out of range raises
  \<^verbatim>\<open>IndexError\<close> in Python, and a negative index counts from the end of the list;
  both are written out here. A raised exception is the \<open>Inl\<close> of a sum.
\<close>

datatype error = IndexError | ZeroDivisionError

type_synonym board = "int list list"

definition and_then :: "error + 'a \<Rightarrow> ('a \<Rightarrow> error + 'b) \<Rightarrow> error + 'b" where
  "and_then m f = (case m of Inl e \<Rightarrow> Inl e | Inr x \<Rightarrow> f x)"

definition py_index :: "'a list \<Rightarrow> int \<Rightarrow> error + 'a" where
  \<comment> \<open>\<^verbatim>\<open>xs[i]\<close>\<close>
  "py_index xs i =
     (if 0 \<le> i \<and> i < int (length xs) then Inr (xs ! nat i)
      else if i < 0 \<and> - int (length xs) \<le> i then Inr (xs ! nat (int (length xs) + i))
      else Inl IndexError)"

definition py_store :: "'a list \<Rightarrow> int \<Rightarrow> 'a \<Rightarrow> error + 'a list" where
  \<comment> \<open>\<^verbatim>\<open>xs[i] = v\<close>, returning the updated list\<close>
  "py_store xs i v =
     (if 0 \<le> i \<and> i < int (length xs) then Inr (xs[nat i := v])
      else if i < 0 \<and> - int (length xs) \<le> i then Inr (xs[nat (int (length xs) + i) := v])
      else Inl IndexError)"

definition py_floordiv :: "int \<Rightarrow> int \<Rightarrow> error + int" where
  \<comment> \<open>\<^verbatim>\<open>a // b\<close> on integers\<close>
  "py_floordiv a b = (if b = 0 then Inl ZeroDivisionError else Inr (a div b))"

definition cell :: "board \<Rightarrow> int \<Rightarrow> int \<Rightarrow> error + int" where
  \<comment> \<open>\<^verbatim>\<open>board[row][col]\<close>\<close>
  "cell b row col = and_then (py_index b row) (\<lambda>r. py_index r col)"

definition set_cell :: "board \<Rightarrow> int \<Rightarrow> int \<Rightarrow> int \<Rightarrow> error + board" where
  \<comment> \<open>\<^verbatim>\<open>board[row][col] = num\<close>, returning the updated board\<close>
  "set_cell b row col num =
     and_then (py_index b row) (\<lambda>r.
     and_then (py_store r col num) (\<lambda>r'. py_store b row r'))"

text \<open>
  \<^verbatim>\<open>int(sqrt(n))\<close> for a list length \<open>n\<close>: the integer square root (the
  floating-point square root is exact far beyond any length a list can have).
\<close>

primrec isqrt :: "nat \<Rightarrow> nat" where
  "isqrt 0 = 0"
| "isqrt (Suc n) = (let r = isqrt n in if Suc r * Suc r \<le> Suc n then Suc r else r)"

text \<open>
  A \<^verbatim>\<open>for\<close> loop whose body may leave the function with \<^verbatim>\<open>return False\<close>: the
  body yields \<open>Inr False\<close> for that return, \<open>Inr True\<close> to go on with the next
  element, and \<open>Inl e\<close> when it raises. A loop that runs to its end yields
  \<open>Inr True\<close>, after which the code that follows the loop runs.
\<close>

fun for_each :: "('a \<Rightarrow> error + bool) \<Rightarrow> 'a list \<Rightarrow> error + bool" where
  "for_each body [] = Inr True"
| "for_each body (x # xs) =
     and_then (body x) (\<lambda>go_on. if go_on then for_each body xs else Inr False)"

section \<open>The constraint checker\<close>

text \<open>The three scans of \<^verbatim>\<open>move_valid\<close> (lines 149 to 172), shared textually by \<^verbatim>\<open>is_valid\<close>.\<close>

definition row_scan :: "board \<Rightarrow> int \<Rightarrow> int \<Rightarrow> int \<Rightarrow> error + bool" where
  "row_scan b row col num =
     and_then (py_index b 0) (\<lambda>r0.
       for_each (\<lambda>i. if int i \<noteq> col
                      then and_then (cell b row (int i)) (\<lambda>v. Inr (v \<noteq> num))
                      else Inr True)
         [0..<length r0])"

definition col_scan :: "board \<Rightarrow> int \<Rightarrow> int \<Rightarrow> int \<Rightarrow> error + bool" where
  "col_scan b row col num =
     for_each (\<lambda>i. if int i \<noteq> row
                    then and_then (cell b (int i) col) (\<lambda>v. Inr (v \<noteq> num))
                    else Inr True)
       [0..<length b]"

definition box_scan :: "board \<Rightarrow> int \<Rightarrow> int \<Rightarrow> int \<Rightarrow> error + bool" where
  "box_scan b row col num =
     (let box_size = isqrt (length b) in
      and_then (py_floordiv row (int box_size)) (\<lambda>qy.
      let box_y = qy * int box_size in
      and_then (py_floordiv col (int box_size)) (\<lambda>qx.
      let box_x = qx * int box_size in
      for_each (\<lambda>i.
        for_each (\<lambda>j.
          if \<not> (box_y + int i = row \<and> box_x + int j = col)
          then and_then (cell b (box_y + int i) (box_x + int j)) (\<lambda>v. Inr (v \<noteq> num))
          else Inr True)
          [0..<box_size])
        [0..<box_size])))"

definition move_valid :: "board \<Rightarrow> int \<Rightarrow> int \<Rightarrow> int \<Rightarrow> error + bool" where
  "move_valid b row col num =
     and_then (row_scan b row col num) (\<lambda>ok1. if \<not> ok1 then Inr False else
     and_then (col_scan b row col num) (\<lambda>ok2. if \<not> ok2 then Inr False else
     box_scan b row col num))"

text \<open>
  \<^verbatim>\<open>is_valid\<close> (lines 59 to 97): for every cell the value stored there is read
  and the three scans are run for it; the first conflict returns False.
\<close>

definition is_valid :: "board \<Rightarrow> error + bool" where
  "is_valid b =
     for_each (\<lambda>row.
       and_then (py_index b 0) (\<lambda>r0.
         for_each (\<lambda>col.
           and_then (cell b (int row) (int col)) (\<lambda>num.
           and_then (row_scan b (int row) (int col) num) (\<lambda>ok1. if \<not> ok1 then Inr False else
           and_then (col_scan b (int row) (int col) num) (\<lambda>ok2. if \<not> ok2 then Inr False else
           box_scan b (int row) (int col) num))))
           [0..<length r0]))
       [0..<length b]"

text \<open>\<^verbatim>\<open>is_complete\<close> (lines 100 to 112).\<close>

definition is_complete :: "board \<Rightarrow> error + bool" where
  "is_complete b =
     for_each (\<lambda>row.
       and_then (py_index b 0) (\<lambda>r0.
         for_each (\<lambda>col. and_then (cell b (int row) (int col)) (\<lambda>v. Inr (v \<noteq> 0)))
           [0..<length r0]))
       [0..<length b]"

section \<open>The solver\<close>

text \<open>
  \<^verbatim>\<open>print_board\<close> writes the board to the terminal. The model keeps the list of
  the boards printed so far. Each row is formatted with nine placeholders, so a row
  with fewer than nine entries raises \<^verbatim>\<open>IndexError\<close>.
\<close>

definition print_board :: "board \<Rightarrow> board list \<Rightarrow> error + board list" where
  "print_board b out =
     (if list_all (\<lambda>r. 9 \<le> length r) b then Inr (out @ [b]) else Inl IndexError)"

text \<open>
  The two outer loops of \<^verbatim>\<open>solver\<close> (lines 121 to 123) look for the first cell,
  in row-major order, that holds 0. The body under the test ends with \<^verbatim>\<open>return\<close>,
  so the loops do nothing but find that cell.
\<close>

fun scan_cols :: "board \<Rightarrow> nat \<Rightarrow> nat list \<Rightarrow> error + (nat \<times> nat) option" where
  "scan_cols b row [] = Inr None"
| "scan_cols b row (col # cols) =
     and_then (cell b (int row) (int col)) (\<lambda>v.
       if v = 0 then Inr (Some (row, col)) else scan_cols b row cols)"

fun scan_rows :: "board \<Rightarrow> nat list \<Rightarrow> error + (nat \<times> nat) option" where
  "scan_rows b [] = Inr None"
| "scan_rows b (row # rows) =
     and_then (py_index b 0) (\<lambda>r0.
     and_then (scan_cols b row [0..<length r0]) (\<lambda>found.
       case found of Some rc \<Rightarrow> Inr (Some rc) | None \<Rightarrow> scan_rows b rows))"

definition first_empty :: "board \<Rightarrow> error + (nat \<times> nat) option" where
  "first_empty b = scan_rows b [0..<length b]"

text \<open>
  \<^verbatim>\<open>solver\<close> (lines 115 to 141) calls itself inside the loop over the candidate
  numbers, and each call works on the board the previous one left. The state is the
  board and the boards printed. The first argument bounds the depth of the recursion:
  \<open>None\<close> means that the bound was reached, \<open>Some (Inl e)\<close> that an exception was
  raised, \<open>Some (Inr (b, out))\<close> that the call returned, leaving board \<open>b\<close>.
  \<open>try_nums\<close> is the loop \<^verbatim>\<open>for num in range(1, 10)\<close>.
\<close>

fun solver :: "nat \<Rightarrow> board \<Rightarrow> board list \<Rightarrow> (error + board \<times> board list) option"
and try_nums :: "nat \<Rightarrow> board \<Rightarrow> nat \<Rightarrow> nat \<Rightarrow> int list \<Rightarrow> board list
                  \<Rightarrow> (error + board \<times> board list) option" where
  "solver 0 b out = None"
| "solver (Suc depth) b out =
     (case first_empty b of
        Inl e \<Rightarrow> Some (Inl e)
      | Inr None \<Rightarrow> Some (and_then (print_board b out) (\<lambda>out'. Inr (b, out')))
      | Inr (Some (row, col)) \<Rightarrow>
          (case try_nums depth b row col [1..9] out of
             None \<Rightarrow> None
           | Some (Inl e) \<Rightarrow> Some (Inl e)
           | Some (Inr (b', out')) \<Rightarrow>
               Some (and_then (set_cell b' (int row) (int col) 0) (\<lambda>b''. Inr (b'', out')))))"
| "try_nums depth b row col [] out = Some (Inr (b, out))"
| "try_nums depth b row col (num # nums) out =
     (case move_valid b (int row) (int col) num of
        Inl e \<Rightarrow> Some (Inl e)
      | Inr False \<Rightarrow> try_nums depth b row col nums out
      | Inr True \<Rightarrow>
          (case set_cell b (int row) (int col) num of
             Inl e \<Rightarrow> Some (Inl e)
           | Inr b1 \<Rightarrow>
               (case solver depth b1 out of
                  None \<Rightarrow> None
                | Some (Inl e) \<Rightarrow> Some (Inl e)
                | Some (Inr (b2, out2)) \<Rightarrow> try_nums depth b2 row col nums out2)))"

section \<open>The checker as it runs on the shared board\<close>

text \<open>
  Python passes the board to \<^verbatim>\<open>move_valid\<close> and \<^verbatim>\<open>is_valid\<close> by reference, so
  a call could change it. Here every statement of the two functions is a step that
  takes the board and gives back a result together with the board it leaves: reading
  a cell, reading a length, a loop with an early \<^verbatim>\<open>return False\<close>. The functions
  of the previous section are the results of these runs, which is proved below.
\<close>

type_synonym 'a action = "board \<Rightarrow> (error + 'a) \<times> board"

definition returns :: "'a \<Rightarrow> 'a action" where
  "returns x = (\<lambda>b. (Inr x, b))"

definition lift :: "error + 'a \<Rightarrow> 'a action" where
  \<comment> \<open>a computation that does not touch the board, such as \<^verbatim>\<open>row // box_size\<close>\<close>
  "lift m = (\<lambda>b. (m, b))"

definition then_do :: "'a action \<Rightarrow> ('a \<Rightarrow> 'b action) \<Rightarrow> 'b action" where
  "then_do m f = (\<lambda>b. case m b of (Inl e, b') \<Rightarrow> (Inl e, b') | (Inr x, b') \<Rightarrow> f x b')"

definition read_cell :: "int \<Rightarrow> int \<Rightarrow> int action" where
  \<comment> \<open>\<^verbatim>\<open>board[row][col]\<close>\<close>
  "read_cell row col = (\<lambda>b. (cell b row col, b))"

definition read_len :: "nat action" where
  \<comment> \<open>\<^verbatim>\<open>len(board)\<close>\<close>
  "read_len = (\<lambda>b. (Inr (length b), b))"

definition read_len0 :: "nat action" where
  \<comment> \<open>\<^verbatim>\<open>len(board[0])\<close>\<close>
  "read_len0 = (\<lambda>b. (and_then (py_index b 0) (\<lambda>r0. Inr (length r0)), b))"

fun loop :: "('a \<Rightarrow> bool action) \<Rightarrow> 'a list \<Rightarrow> bool action" where
  "loop body [] = returns True"
| "loop body (x # xs) =
     then_do (body x) (\<lambda>go_on. if go_on then loop body xs else returns False)"

definition row_scan_run :: "int \<Rightarrow> int \<Rightarrow> int \<Rightarrow> bool action" where
  "row_scan_run row col num =
     then_do read_len0 (\<lambda>n0.
       loop (\<lambda>i. if int i \<noteq> col
                  then then_do (read_cell row (int i)) (\<lambda>v. returns (v \<noteq> num))
                  else returns True)
         [0..<n0])"

definition col_scan_run :: "int \<Rightarrow> int \<Rightarrow> int \<Rightarrow> bool action" where
  "col_scan_run row col num =
     then_do read_len (\<lambda>n.
       loop (\<lambda>i. if int i \<noteq> row
                  then then_do (read_cell (int i) col) (\<lambda>v. returns (v \<noteq> num))
                  else returns True)
         [0..<n])"

definition box_scan_run :: "int \<Rightarrow> int \<Rightarrow> int \<Rightarrow> bool action" where
  "box_scan_run row col num =
     then_do read_len (\<lambda>n.
     let box_size = isqrt n in
     then_do (lift (py_floordiv row (int box_size))) (\<lambda>qy.
     let box_y = qy * int box_size in
     then_do (lift (py_floordiv col (int box_size))) (\<lambda>qx.
     let box_x = qx * int box_size in
     loop (\<lambda>i.
       loop (\<lambda>j.
         if \<not> (box_y + int i = row \<and> box_x + int j = col)
         then then_do (read_cell (box_y + int i) (box_x + int j)) (\<lambda>v. returns (v \<noteq> num))
         else returns True)
         [0..<box_size])
       [0..<box_size])))"

definition move_valid_run :: "int \<Rightarrow> int \<Rightarrow> int \<Rightarrow> bool action" where
  "move_valid_run row col num =
     then_do (row_scan_run row col num) (\<lambda>ok1. if \<not> ok1 then returns False else
     then_do (col_scan_run row col num) (\<lambda>ok2. if \<not> ok2 then returns False else
     box_scan_run row col num))"

definition is_valid_run :: "bool action" where
  "is_valid_run =
     then_do read_len (\<lambda>n.
       loop (\<lambda>row.
         then_do read_len0 (\<lambda>n0.
           loop (\<lambda>col.
             then_do (read_cell (int row) (int col)) (\<lambda>num.
             then_do (row_scan_run (int row) (int col) num) (\<lambda>ok1. if \<not> ok1 then returns False else
             then_do (col_scan_run (int row) (int col) num) (\<lambda>ok2. if \<not> ok2 then returns False else
             box_scan_run (int row) (int col) num))))
             [0..<n0]))
         [0..<n])"

section \<open>Notions of the specification\<close>

text \<open>A 9x9 grid: nine rows of nine cells. Cells are addressed by natural numbers below 9.\<close>

definition shape9 :: "board \<Rightarrow> bool" where
  "shape9 b \<longleftrightarrow> length b = 9 \<and> list_all (\<lambda>r. length r = 9) b"

definition upd :: "board \<Rightarrow> nat \<Rightarrow> nat \<Rightarrow> int \<Rightarrow> board" where
  \<comment> \<open>the board with one cell replaced\<close>
  "upd b r c v = b[r := (b ! r)[c := v]]"

definition empties :: "board \<Rightarrow> nat" where
  \<comment> \<open>the number of empty cells\<close>
  "empties b = count_list (concat b) 0"

text \<open>
  Two different cells are peers when they share a row, a column or a 3x3 box. A value is
  free at a cell when no peer of the cell holds it.
\<close>

definition peer :: "nat \<Rightarrow> nat \<Rightarrow> nat \<Rightarrow> nat \<Rightarrow> bool" where
  "peer r c r' c' \<longleftrightarrow>
     (r', c') \<noteq> (r, c) \<and> (r' = r \<or> c' = c \<or> (r' div 3 = r div 3 \<and> c' div 3 = c div 3))"

definition free :: "board \<Rightarrow> nat \<Rightarrow> nat \<Rightarrow> int \<Rightarrow> bool" where
  "free b r c v \<longleftrightarrow>
     (\<forall>r'\<in>set [0..<9]. \<forall>c'\<in>set [0..<9]. peer r c r' c' \<longrightarrow> b ! r' ! c' \<noteq> v)"

text \<open>Row \<open>r\<close>, column \<open>c\<close>, and the box that contains the cell \<open>(r, c)\<close>, as lists of values.\<close>

definition row_of :: "board \<Rightarrow> nat \<Rightarrow> int list" where
  "row_of b r = b ! r"

definition col_of :: "board \<Rightarrow> nat \<Rightarrow> int list" where
  "col_of b c = map (\<lambda>row. row ! c) b"

definition box_of :: "board \<Rightarrow> nat \<Rightarrow> nat \<Rightarrow> int list" where
  "box_of b r c = map (\<lambda>k. b ! (r div 3 * 3 + k div 3) ! (c div 3 * 3 + k mod 3)) [0..<9]"

definition perm19 :: "int list \<Rightarrow> bool" where
  \<comment> \<open>a permutation of 1..9\<close>
  "perm19 xs \<longleftrightarrow> mset xs = mset [1..9]"

definition filled19 :: "board \<Rightarrow> bool" where
  \<comment> \<open>completely filled: every cell holds a value from 1 to 9\<close>
  "filled19 b \<longleftrightarrow> list_all (list_all (\<lambda>v. 1 \<le> v \<and> v \<le> 9)) b"

text \<open>
  The cells that \<^verbatim>\<open>is_valid\<close> visits, in the order of its two loops, and what it asks
  of one of them: that \<^verbatim>\<open>move_valid\<close> accepts the value the cell holds.
\<close>

definition scanned_cells :: "board \<Rightarrow> (nat \<times> nat) list" where
  "scanned_cells b = concat (map (\<lambda>r. map (Pair r) [0..<length (hd b)]) [0..<length b])"

definition cell_passes :: "board \<Rightarrow> nat \<times> nat \<Rightarrow> bool" where
  "cell_passes b rc =
     (case cell b (int (fst rc)) (int (snd rc)) of
        Inl e \<Rightarrow> False
      | Inr num \<Rightarrow> move_valid b (int (fst rc)) (int (snd rc)) num = Inr True)"

text \<open>
  The validity check the specification asks for, in which a cell that holds 0 is not
  scanned; and the condition under which empty cells do not collide in the scan of the
  program: no empty cell has another empty cell among its peers.
\<close>

definition is_valid_exempt0 :: "board \<Rightarrow> bool" where
  "is_valid_exempt0 b \<longleftrightarrow>
     list_all (\<lambda>rc. case cell b (int (fst rc)) (int (snd rc)) of
                      Inl e \<Rightarrow> False
                    | Inr num \<Rightarrow> num = 0 \<or> move_valid b (int (fst rc)) (int (snd rc)) num = Inr True)
       (scanned_cells b)"

definition zeros_apart :: "board \<Rightarrow> bool" where
  "zeros_apart b \<longleftrightarrow>
     (\<forall>r\<in>set [0..<9]. \<forall>c\<in>set [0..<9]. b ! r ! c = 0 \<longrightarrow> free b r c 0)"

text \<open>
  \<open>S\<close> is a solution of the grid \<open>b\<close>: a 9x9 grid that keeps the nonzero cells of \<open>b\<close>,
  has a digit from 1 to 9 in place of every empty cell, and that \<^verbatim>\<open>is_valid\<close> and
  \<^verbatim>\<open>is_complete\<close> accept.
\<close>

definition is_solution :: "board \<Rightarrow> board \<Rightarrow> bool" where
  "is_solution S b \<longleftrightarrow> shape9 S \<and>
     (\<forall>r\<in>set [0..<9]. \<forall>c\<in>set [0..<9].
        if b ! r ! c \<noteq> 0 then S ! r ! c = b ! r ! c else 1 \<le> S ! r ! c \<and> S ! r ! c \<le> 9) \<and>
     is_valid S = Inr True \<and> is_complete S = Inr True"

text \<open>
  \<open>S\<close> fills \<open>b\<close>: it keeps the nonzero cells of \<open>b\<close>, and each cell that is empty in
  \<open>b\<close> holds a digit that is free in \<open>S\<close>. This is what the search can see: it checks the
  cells it fills, never the given ones.
\<close>

definition fills :: "board \<Rightarrow> board \<Rightarrow> bool" where
  "fills S b \<longleftrightarrow> shape9 S \<and>
     (\<forall>r\<in>set [0..<9]. \<forall>c\<in>set [0..<9].
        if b ! r ! c \<noteq> 0 then S ! r ! c = b ! r ! c
        else 1 \<le> S ! r ! c \<and> S ! r ! c \<le> 9 \<and> free S r c (S ! r ! c))"

text \<open>Two grids for the examples: a solved one, and the same with two cells of its first row emptied.\<close>

definition solved_grid :: board where
  "solved_grid =
    [[1, 5, 2, 4, 8, 9, 3, 7, 6],
     [7, 3, 9, 2, 5, 6, 8, 4, 1],
     [4, 6, 8, 3, 7, 1, 2, 9, 5],
     [3, 8, 7, 1, 2, 4, 6, 5, 9],
     [5, 9, 1, 7, 6, 3, 4, 2, 8],
     [2, 4, 6, 8, 9, 5, 7, 1, 3],
     [9, 1, 4, 6, 3, 7, 5, 8, 2],
     [6, 2, 5, 9, 4, 8, 1, 3, 7],
     [8, 7, 3, 5, 1, 2, 9, 6, 4]]"

definition two_open :: board where
  "two_open =
    [[1, 0, 0, 4, 8, 9, 3, 7, 6],
     [7, 3, 9, 2, 5, 6, 8, 4, 1],
     [4, 6, 8, 3, 7, 1, 2, 9, 5],
     [3, 8, 7, 1, 2, 4, 6, 5, 9],
     [5, 9, 1, 7, 6, 3, 4, 2, 8],
     [2, 4, 6, 8, 9, 5, 7, 1, 3],
     [9, 1, 4, 6, 3, 7, 5, 8, 2],
     [6, 2, 5, 9, 4, 8, 1, 3, 7],
     [8, 7, 3, 5, 1, 2, 9, 6, 4]]"

section \<open>Basic facts about the operations\<close>


lemma and_then_Inr [simp]: "and_then (Inr x) f = f x"
  by (simp add: and_then_def)

lemma and_then_Inl [simp]: "and_then (Inl e) f = Inl e"
  by (simp add: and_then_def)

lemma and_then_eq_Inr_iff:
  "and_then m f = Inr y \<longleftrightarrow> (\<exists>x. m = Inr x \<and> f x = Inr y)"
  by (cases m) simp_all

lemma for_each_True_iff:
  "for_each body xs = Inr True \<longleftrightarrow> (\<forall>x\<in>set xs. body x = Inr True)"
proof (induction xs)
  case Nil
  show ?case by simp
next
  case (Cons x xs)
  show ?case
  proof (cases "body x")
    case (Inl e)
    then show ?thesis by simp
  next
    case (Inr go_on)
    with Cons.IH show ?thesis by (cases go_on) simp_all
  qed
qed

lemma for_each_pure:
  "(\<And>x. x \<in> set xs \<Longrightarrow> body x = Inr (P x)) \<Longrightarrow> for_each body xs = Inr (\<forall>x\<in>set xs. P x)"
  by (induction xs) simp_all

lemma py_index_nat:
  "py_index xs (int i) = (if i < length xs then Inr (xs ! i) else Inl IndexError)"
  by (simp add: py_index_def)

lemma py_store_nat:
  "py_store xs (int i) v = (if i < length xs then Inr (xs[i := v]) else Inl IndexError)"
  by (simp add: py_store_def)

lemma py_index_0: "py_index xs 0 = (if xs = [] then Inl IndexError else Inr (xs ! 0))"
  using py_index_nat [of xs 0] by simp

lemma cell_nat:
  "cell b (int r) (int c) =
     (if r < length b \<and> c < length (b ! r) then Inr (b ! r ! c) else Inl IndexError)"
  by (simp add: cell_def py_index_nat)

lemma set_cell_nat:
  "set_cell b (int r) (int c) v =
     (if r < length b \<and> c < length (b ! r) then Inr (upd b r c v) else Inl IndexError)"
  by (simp add: set_cell_def py_index_nat py_store_nat upd_def)

lemma isqrt_9: "isqrt 9 = 3"
  by code_simp



lemma is_valid_via_move_valid:
  "is_valid b =
     for_each (\<lambda>row.
       and_then (py_index b 0) (\<lambda>r0.
         for_each (\<lambda>col.
           and_then (cell b (int row) (int col)) (\<lambda>num. move_valid b (int row) (int col) num))
           [0..<length r0]))
       [0..<length b]"
  by (simp add: is_valid_def move_valid_def)

lemma cell_passes_iff:
  "cell_passes b (row, col) \<longleftrightarrow>
     and_then (cell b (int row) (int col)) (\<lambda>num. move_valid b (int row) (int col) num) = Inr True"
  by (simp add: cell_passes_def split: sum.splits)

lemma is_valid_True_iff:
  "is_valid b = Inr True \<longleftrightarrow> (\<forall>rc \<in> set (scanned_cells b). cell_passes b rc)"
proof (cases "b = []")
  case True
  then show ?thesis by (simp add: is_valid_def scanned_cells_def)
next
  case False
  then have "py_index b 0 = Inr (hd b)"
    by (simp add: py_index_0 hd_conv_nth)
  then show ?thesis
    unfolding is_valid_via_move_valid for_each_True_iff
    by (auto simp add: scanned_cells_def cell_passes_iff for_each_True_iff)
qed



lemma free_iff:
  "free b r c v \<longleftrightarrow> (\<forall>r'<9. \<forall>c'<9. peer r c r' c' \<longrightarrow> b ! r' ! c' \<noteq> v)"
  by (simp add: free_def Ball_def)

lemma fills_iff:
  "fills S b \<longleftrightarrow> shape9 S \<and>
     (\<forall>r<9. \<forall>c<9. if b ! r ! c \<noteq> 0 then S ! r ! c = b ! r ! c
                   else 1 \<le> S ! r ! c \<and> S ! r ! c \<le> 9 \<and> free S r c (S ! r ! c))"
  by (simp add: fills_def Ball_def)

lemma shape9_length: "shape9 b \<Longrightarrow> length b = 9"
  by (simp add: shape9_def)

lemma shape9_row: "shape9 b \<Longrightarrow> r < 9 \<Longrightarrow> length (b ! r) = 9"
  by (simp add: shape9_def list_all_length)

lemma shape9_cell: "shape9 b \<Longrightarrow> r < 9 \<Longrightarrow> c < 9 \<Longrightarrow> cell b (int r) (int c) = Inr (b ! r ! c)"
  by (simp add: cell_nat shape9_length shape9_row)

lemma shape9_index_0: "shape9 b \<Longrightarrow> py_index b 0 = Inr (b ! 0)"
  by (auto simp add: py_index_0 shape9_def)

lemma for_each_range:
  assumes "\<And>i. i < n \<Longrightarrow> body i = Inr (P i)"
  shows "for_each body [0..<n] = Inr (\<forall>i<n. P i)"
proof -
  have "for_each body [0..<n] = Inr (\<forall>i\<in>set [0..<n]. P i)"
    by (rule for_each_pure) (simp add: assms)
  then show ?thesis by (simp add: Ball_def)
qed

lemma row_scan_shape9:
  assumes "shape9 b" "r < 9"
  shows "row_scan b (int r) (int c) v = Inr (\<forall>i<9. i \<noteq> c \<longrightarrow> b ! r ! i \<noteq> v)"
proof -
  have "for_each (\<lambda>i. if int i \<noteq> int c
                      then and_then (cell b (int r) (int i)) (\<lambda>w. Inr (w \<noteq> v))
                      else Inr True) [0..<9]
        = Inr (\<forall>i<9. i \<noteq> c \<longrightarrow> b ! r ! i \<noteq> v)"
    by (rule for_each_range) (use assms in \<open>simp add: shape9_cell\<close>)
  then show ?thesis
    using assms by (simp add: row_scan_def shape9_index_0 shape9_row)
qed

lemma col_scan_shape9:
  assumes "shape9 b" "c < 9"
  shows "col_scan b (int r) (int c) v = Inr (\<forall>i<9. i \<noteq> r \<longrightarrow> b ! i ! c \<noteq> v)"
proof -
  have "for_each (\<lambda>i. if int i \<noteq> int r
                      then and_then (cell b (int i) (int c)) (\<lambda>w. Inr (w \<noteq> v))
                      else Inr True) [0..<9]
        = Inr (\<forall>i<9. i \<noteq> r \<longrightarrow> b ! i ! c \<noteq> v)"
    by (rule for_each_range) (use assms in \<open>simp add: shape9_cell\<close>)
  then show ?thesis
    using assms by (simp add: col_scan_def shape9_length)
qed

lemma box_loops:
  assumes "\<And>i j. i < n \<Longrightarrow> j < n \<Longrightarrow> cell b (y + int i) (x + int j) = Inr (g i j)"
  shows "for_each (\<lambda>i. for_each (\<lambda>j.
            if \<not> (y + int i = row \<and> x + int j = col)
            then and_then (cell b (y + int i) (x + int j)) (\<lambda>w. Inr (w \<noteq> v))
            else Inr True) [0..<n]) [0..<n]
         = Inr (\<forall>i<n. \<forall>j<n. \<not> (y + int i = row \<and> x + int j = col) \<longrightarrow> g i j \<noteq> v)"
proof (rule for_each_range)
  fix i :: nat assume i: "i < n"
  show "for_each (\<lambda>j.
            if \<not> (y + int i = row \<and> x + int j = col)
            then and_then (cell b (y + int i) (x + int j)) (\<lambda>w. Inr (w \<noteq> v))
            else Inr True) [0..<n]
        = Inr (\<forall>j<n. \<not> (y + int i = row \<and> x + int j = col) \<longrightarrow> g i j \<noteq> v)"
    by (rule for_each_range) (simp add: assms i)
qed

lemma box_corner: "int r div 3 * 3 + int i = int (r div 3 * 3 + i)"
  by (simp add: zdiv_int)

lemma box_corner_less: "r < 9 \<Longrightarrow> i < 3 \<Longrightarrow> r div 3 * 3 + i < (9::nat)"
  by presburger

lemma box_scan_shape9:
  assumes "shape9 b" "r < 9" "c < 9"
  shows "box_scan b (int r) (int c) v =
           Inr (\<forall>i<3. \<forall>j<3. \<not> (r div 3 * 3 + i = r \<and> c div 3 * 3 + j = c)
                  \<longrightarrow> b ! (r div 3 * 3 + i) ! (c div 3 * 3 + j) \<noteq> v)"
proof -
  have cells: "cell b (int r div 3 * 3 + int i) (int c div 3 * 3 + int j)
                 = Inr (b ! (r div 3 * 3 + i) ! (c div 3 * 3 + j))"
    if "i < 3" "j < 3" for i j
    unfolding box_corner
    using assms that by (intro shape9_cell box_corner_less)
  have cond: "(int r div 3 * 3 + int i = int r \<and> int c div 3 * 3 + int j = int c)
                \<longleftrightarrow> (r div 3 * 3 + i = r \<and> c div 3 * 3 + j = c)" for i j
    unfolding box_corner by (simp only: of_nat_eq_iff)
  have "box_scan b (int r) (int c) v =
        for_each (\<lambda>i. for_each (\<lambda>j.
            if \<not> (int r div 3 * 3 + int i = int r \<and> int c div 3 * 3 + int j = int c)
            then and_then (cell b (int r div 3 * 3 + int i) (int c div 3 * 3 + int j)) (\<lambda>w. Inr (w \<noteq> v))
            else Inr True) [0..<3]) [0..<3]"
    using assms(1) by (simp add: box_scan_def shape9_length isqrt_9 py_floordiv_def Let_def cong: if_cong)
  also have "\<dots> = Inr (\<forall>i<3. \<forall>j<3.
                 \<not> (int r div 3 * 3 + int i = int r \<and> int c div 3 * 3 + int j = int c)
                 \<longrightarrow> b ! (r div 3 * 3 + i) ! (c div 3 * 3 + j) \<noteq> v)"
    by (rule box_loops) (rule cells)
  finally show ?thesis
    unfolding cond .
qed



lemma box_index: "r' div 3 = r div 3 \<Longrightarrow> r div 3 * 3 + r' mod 3 = (r'::nat)"
  by presburger

lemma box_index_div: "i < 3 \<Longrightarrow> (r div 3 * 3 + i) div 3 = (r::nat) div 3"
  by presburger

lemma free_iff_scans:
  assumes "r < 9" "c < 9"
  shows "free b r c v \<longleftrightarrow>
           (\<forall>i<9. i \<noteq> c \<longrightarrow> b ! r ! i \<noteq> v) \<and>
           (\<forall>i<9. i \<noteq> r \<longrightarrow> b ! i ! c \<noteq> v) \<and>
           (\<forall>i<3. \<forall>j<3. \<not> (r div 3 * 3 + i = r \<and> c div 3 * 3 + j = c)
                  \<longrightarrow> b ! (r div 3 * 3 + i) ! (c div 3 * 3 + j) \<noteq> v)"
    (is "?L \<longleftrightarrow> ?R1 \<and> ?R2 \<and> ?R3")
proof
  assume L: ?L
  have ?R1 using L assms by (auto simp add: free_iff peer_def)
  moreover have ?R2 using L assms by (auto simp add: free_iff peer_def)
  moreover have ?R3
  proof (intro allI impI)
    fix i j :: nat
    assume i: "i < 3" and j: "j < 3"
      and ne: "\<not> (r div 3 * 3 + i = r \<and> c div 3 * 3 + j = c)"
    have "r div 3 * 3 + i < 9" "c div 3 * 3 + j < 9"
      using assms i j by (simp_all add: box_corner_less)
    moreover have "peer r c (r div 3 * 3 + i) (c div 3 * 3 + j)"
      using ne i j by (simp add: peer_def box_index_div)
    ultimately show "b ! (r div 3 * 3 + i) ! (c div 3 * 3 + j) \<noteq> v"
      using L by (simp add: free_iff)
  qed
  ultimately show "?R1 \<and> ?R2 \<and> ?R3" by blast
next
  assume R: "?R1 \<and> ?R2 \<and> ?R3"
  show ?L
    unfolding free_iff
  proof (intro allI impI)
    fix r' c' :: nat
    assume r': "r' < 9" and c': "c' < 9" and p: "peer r c r' c'"
    from p consider (row) "r' = r" "c' \<noteq> c" | (col) "c' = c" "r' \<noteq> r"
      | (box) "r' div 3 = r div 3" "c' div 3 = c div 3" "\<not> (r' = r \<and> c' = c)"
      by (auto simp add: peer_def)
    then show "b ! r' ! c' \<noteq> v"
    proof cases
      case row
      with R c' show ?thesis by simp
    next
      case col
      with R r' show ?thesis by simp
    next
      case box
      have eq: "r div 3 * 3 + r' mod 3 = r'" "c div 3 * 3 + c' mod 3 = c'"
        using box by (simp_all add: box_index)
      have "r' mod 3 < 3" "c' mod 3 < 3" by simp_all
      moreover have "\<not> (r div 3 * 3 + r' mod 3 = r \<and> c div 3 * 3 + c' mod 3 = c)"
        unfolding eq by (rule box(3))
      ultimately have "b ! (r div 3 * 3 + r' mod 3) ! (c div 3 * 3 + c' mod 3) \<noteq> v"
        using R by blast
      then show ?thesis unfolding eq .
    qed
  qed
qed

lemma move_valid_shape9:
  assumes "shape9 b" "r < 9" "c < 9"
  shows "move_valid b (int r) (int c) v = Inr (free b r c v)"
proof -
  define R1 where "R1 \<longleftrightarrow> (\<forall>i<9. i \<noteq> c \<longrightarrow> b ! r ! i \<noteq> v)"
  define R2 where "R2 \<longleftrightarrow> (\<forall>i<9. i \<noteq> r \<longrightarrow> b ! i ! c \<noteq> v)"
  define R3 where "R3 \<longleftrightarrow> (\<forall>i<3. \<forall>j<3. \<not> (r div 3 * 3 + i = r \<and> c div 3 * 3 + j = c)
                  \<longrightarrow> b ! (r div 3 * 3 + i) ! (c div 3 * 3 + j) \<noteq> v)"
  have "row_scan b (int r) (int c) v = Inr R1" "col_scan b (int r) (int c) v = Inr R2"
    "box_scan b (int r) (int c) v = Inr R3"
    unfolding R1_def R2_def R3_def
    by (rule row_scan_shape9 col_scan_shape9 box_scan_shape9; rule assms)+
  then have "move_valid b (int r) (int c) v = Inr (R1 \<and> R2 \<and> R3)"
    by (simp add: move_valid_def)
  also have "(R1 \<and> R2 \<and> R3) \<longleftrightarrow> free b r c v"
    unfolding R1_def R2_def R3_def by (rule free_iff_scans [OF assms(2,3), symmetric])
  finally show ?thesis .
qed

lemma is_valid_shape9:
  assumes "shape9 b"
  shows "is_valid b = Inr (\<forall>r<9. \<forall>c<9. free b r c (b ! r ! c))"
proof -
  have len: "length b = 9" "length (b ! 0) = 9"
    using assms by (simp_all add: shape9_length shape9_row)
  have "for_each (\<lambda>row.
          and_then (py_index b 0) (\<lambda>r0.
            for_each (\<lambda>col.
              and_then (cell b (int row) (int col)) (\<lambda>num. move_valid b (int row) (int col) num))
              [0..<length r0]))
          [0..<9] = Inr (\<forall>r<9. \<forall>c<9. free b r c (b ! r ! c))"
  proof (rule for_each_range)
    fix r :: nat assume r: "r < 9"
    have "for_each (\<lambda>col.
              and_then (cell b (int r) (int col)) (\<lambda>num. move_valid b (int r) (int col) num))
              [0..<9] = Inr (\<forall>c<9. free b r c (b ! r ! c))"
      by (rule for_each_range) (simp add: shape9_cell move_valid_shape9 assms r)
    then show "and_then (py_index b 0) (\<lambda>r0.
            for_each (\<lambda>col.
              and_then (cell b (int r) (int col)) (\<lambda>num. move_valid b (int r) (int col) num))
              [0..<length r0]) = Inr (\<forall>c<9. free b r c (b ! r ! c))"
      by (simp only: shape9_index_0 [OF assms] and_then_Inr len)
  qed
  then show ?thesis
    by (simp only: is_valid_via_move_valid len)
qed

lemma is_complete_shape9:
  assumes "shape9 b"
  shows "is_complete b = Inr (\<forall>r<9. \<forall>c<9. b ! r ! c \<noteq> 0)"
proof -
  have len: "length b = 9" "length (b ! 0) = 9"
    using assms by (simp_all add: shape9_length shape9_row)
  have "for_each (\<lambda>row.
       and_then (py_index b 0) (\<lambda>r0.
         for_each (\<lambda>col. and_then (cell b (int row) (int col)) (\<lambda>v. Inr (v \<noteq> 0)))
           [0..<length r0]))
       [0..<9] = Inr (\<forall>r<9. \<forall>c<9. b ! r ! c \<noteq> 0)"
  proof (rule for_each_range)
    fix r :: nat assume r: "r < 9"
    have "for_each (\<lambda>col. and_then (cell b (int r) (int col)) (\<lambda>v. Inr (v \<noteq> 0))) [0..<9]
            = Inr (\<forall>c<9. b ! r ! c \<noteq> 0)"
      by (rule for_each_range) (simp add: shape9_cell assms r)
    then show "and_then (py_index b 0) (\<lambda>r0.
         for_each (\<lambda>col. and_then (cell b (int r) (int col)) (\<lambda>v. Inr (v \<noteq> 0)))
           [0..<length r0]) = Inr (\<forall>c<9. b ! r ! c \<noteq> 0)"
      by (simp only: shape9_index_0 [OF assms] and_then_Inr len)
  qed
  then show ?thesis
    by (simp only: is_complete_def len)
qed



lemma count_list_concat:
  "count_list (concat xss) a = sum_list (map (\<lambda>xs. count_list xs a) xss)"
  by (induction xss) simp_all

lemma count_list_update:
  "i < length xs \<Longrightarrow>
     count_list (xs[i := v]) a + (if xs ! i = a then 1 else 0)
       = count_list xs a + (if v = a then 1 else 0)"
proof (induction xs arbitrary: i)
  case Nil
  then show ?case by simp
next
  case (Cons x xs)
  show ?case
  proof (cases i)
    case 0
    then show ?thesis by simp
  next
    case (Suc j)
    with Cons.prems have "j < length xs" by simp
    from Cons.IH [OF this] show ?thesis using Suc by (auto split: if_splits)
  qed
qed

lemma sum_list_map_update:
  fixes f :: "'a \<Rightarrow> nat"
  shows "i < length xs \<Longrightarrow>
     sum_list (map f (xs[i := y])) + f (xs ! i) = sum_list (map f xs) + f y"
proof (induction xs arbitrary: i)
  case Nil
  then show ?case by simp
next
  case (Cons x xs)
  then show ?case by (cases i) auto
qed

lemma empties_upd:
  assumes "r < length b" "c < length (b ! r)"
  shows "empties (upd b r c v) + (if b ! r ! c = 0 then 1 else 0)
           = empties b + (if v = 0 then 1 else 0)"
proof -
  let ?f = "\<lambda>xs. count_list xs (0::int)"
  have "empties (upd b r c v) + ?f (b ! r) = empties b + ?f ((b ! r)[c := v])"
    unfolding empties_def upd_def count_list_concat
    by (rule sum_list_map_update [OF assms(1)])
  moreover have "?f ((b ! r)[c := v]) + (if b ! r ! c = 0 then 1 else 0)
                   = ?f (b ! r) + (if v = 0 then 1 else 0)"
    by (rule count_list_update [OF assms(2)])
  ultimately show ?thesis by linarith
qed

lemma upd_upd: "r < length b \<Longrightarrow> upd (upd b r c v) r c w = upd b r c w"
  by (simp add: upd_def)

lemma upd_same: "upd b r c (b ! r ! c) = b"
  by (simp add: upd_def)

lemma length_upd: "length (upd b r c v) = length b"
  by (simp add: upd_def)

lemma length_upd_row: "length (upd b r c v ! r') = length (b ! r')"
  by (cases "r < length b"; cases "r' = r") (simp_all add: upd_def list_update_beyond)

lemma nth_upd:
  "r < length b \<Longrightarrow> c < length (b ! r) \<Longrightarrow>
     upd b r c v ! r' ! c' = (if r' = r \<and> c' = c then v else b ! r' ! c')"
  by (cases "r' = r"; cases "c' = c") (simp_all add: upd_def)

lemma cell_Inr_iff:
  "cell b (int r) (int c) = Inr x \<longleftrightarrow> r < length b \<and> c < length (b ! r) \<and> b ! r ! c = x"
  by (auto simp add: cell_nat)

lemma scan_cols_Some:
  "scan_cols b row cols = Inr (Some (r, c)) \<Longrightarrow> cell b (int r) (int c) = Inr 0"
proof (induction cols)
  case Nil
  then show ?case by simp
next
  case (Cons col cols)
  then show ?case
    by (cases "cell b (int row) (int col)") (auto split: if_splits)
qed

lemma scan_rows_Some:
  "scan_rows b rows = Inr (Some (r, c)) \<Longrightarrow> cell b (int r) (int c) = Inr 0"
proof (induction rows)
  case Nil
  then show ?case by simp
next
  case (Cons row rows)
  then show ?case
    by (auto simp add: and_then_eq_Inr_iff split: option.splits dest: scan_cols_Some)
qed

lemma first_empty_Some:
  "first_empty b = Inr (Some (r, c)) \<Longrightarrow> r < length b \<and> c < length (b ! r) \<and> b ! r ! c = 0"
  unfolding first_empty_def by (drule scan_rows_Some) (simp add: cell_Inr_iff)

lemma upd_eq_lengths:
  assumes "upd b' r c v = upd b r c w"
  shows "length b' = length b \<and> length (b' ! r) = length (b ! r)"
proof -
  have "length (upd b' r c v) = length (upd b r c w)"
    "length (upd b' r c v ! r) = length (upd b r c w ! r)"
    using assms by simp_all
  then show ?thesis by (simp add: length_upd length_upd_row)
qed

text \<open>The loop over the candidate numbers changes no cell but the one it fills.\<close>

lemma try_nums_frame:
  assumes rec: "\<And>b1 out1 b2 out2. solver d b1 out1 = Some (Inr (b2, out2)) \<Longrightarrow> b2 = b1"
  shows "try_nums d b r c nums out = Some (Inr (b', out')) \<Longrightarrow>
           r < length b \<Longrightarrow> c < length (b ! r) \<Longrightarrow> upd b' r c 0 = upd b r c 0"
proof (induction nums arbitrary: b out)
  case Nil
  then show ?case by simp
next
  case (Cons num nums)
  show ?case
  proof (cases "move_valid b (int r) (int c) num")
    case (Inl e)
    with Cons.prems show ?thesis by simp
  next
    case (Inr ok)
    show ?thesis
    proof (cases ok)
      case False
      with Inr Cons show ?thesis by simp
    next
      case True
      have sc: "set_cell b (int r) (int c) num = Inr (upd b r c num)"
        using Cons.prems by (simp add: set_cell_nat)
      from Cons.prems(1) Inr True sc obtain b2 out2
        where s: "solver d (upd b r c num) out = Some (Inr (b2, out2))"
          and t: "try_nums d b2 r c nums out2 = Some (Inr (b', out'))"
        by (auto split: option.splits sum.splits)
      from rec [OF s] have b2: "b2 = upd b r c num" .
      have "upd b' r c 0 = upd b2 r c 0"
        using t Cons.prems(2,3) unfolding b2
        by (intro Cons.IH) (simp_all add: length_upd length_upd_row)
      then show ?thesis
        using Cons.prems(2) by (simp add: b2 upd_upd)
    qed
  qed
qed

lemma solver_frame:
  "solver d b out = Some (Inr (b', out')) \<Longrightarrow> b' = b"
proof (induction d arbitrary: b out b' out')
  case 0
  then show ?case by simp
next
  case (Suc d)
  show ?case
  proof (cases "first_empty b")
    case (Inl e)
    with Suc.prems show ?thesis by simp
  next
    case (Inr found)
    show ?thesis
    proof (cases found)
      case None
      with Inr Suc.prems show ?thesis
        by (auto simp add: and_then_eq_Inr_iff)
    next
      case (Some rc)
      obtain r c where rc: "rc = (r, c)" by (cases rc)
      have fe: "first_empty b = Inr (Some (r, c))"
        using Inr Some rc by simp
      then have rng: "r < length b" "c < length (b ! r)" and zero: "b ! r ! c = 0"
        using first_empty_Some by blast+
      from Suc.prems fe obtain b1 where
        t: "try_nums d b r c [1..9] out = Some (Inr (b1, out'))"
        and sc: "set_cell b1 (int r) (int c) 0 = Inr b'"
        by (auto simp add: and_then_eq_Inr_iff split: option.splits sum.splits)
      have eq: "upd b1 r c 0 = upd b r c 0"
        using Suc.IH t rng by (rule try_nums_frame)
      have "r < length b1" "c < length (b1 ! r)"
        using upd_eq_lengths [OF eq] rng by simp_all
      then have "b' = upd b1 r c 0"
        using sc by (simp add: set_cell_nat)
      also have "\<dots> = b"
        using eq zero upd_same [of b r c] by simp
      finally show ?thesis .
    qed
  qed
qed



lemma fillsD:
  "fills S b \<Longrightarrow> r < 9 \<Longrightarrow> c < 9 \<Longrightarrow>
     (if b ! r ! c \<noteq> 0 then S ! r ! c = b ! r ! c
      else 1 \<le> S ! r ! c \<and> S ! r ! c \<le> 9 \<and> free S r c (S ! r ! c))"
  unfolding fills_iff by blast

lemma peer_sym: "peer r c r' c' \<longleftrightarrow> peer r' c' r c"
  by (auto simp add: peer_def)

lemma shape9_upd: "shape9 b \<Longrightarrow> shape9 (upd b r c v)"
  by (auto simp add: shape9_def list_all_length length_upd length_upd_row)

lemma shape9_nth_upd:
  "shape9 b \<Longrightarrow> r < 9 \<Longrightarrow> c < 9 \<Longrightarrow>
     upd b r c v ! r' ! c' = (if r' = r \<and> c' = c then v else b ! r' ! c')"
  by (rule nth_upd) (simp_all add: shape9_length shape9_row)

lemma shape9_upd_upd: "shape9 b \<Longrightarrow> r < 9 \<Longrightarrow> upd (upd b r c v) r c w = upd b r c w"
  by (rule upd_upd) (simp add: shape9_length)

lemma free_upd_self:
  assumes "shape9 b" "r < 9" "c < 9"
  shows "free (upd b r c x) r c v \<longleftrightarrow> free b r c v"
  unfolding free_iff using assms
  by (auto simp add: shape9_nth_upd peer_def)

lemma shape9_set_cell:
  "shape9 b \<Longrightarrow> r < 9 \<Longrightarrow> c < 9 \<Longrightarrow> set_cell b (int r) (int c) v = Inr (upd b r c v)"
  by (simp add: set_cell_nat shape9_length shape9_row)

lemma shape9_print_board: "shape9 b \<Longrightarrow> print_board b out = Inr (out @ [b])"
  by (auto simp add: print_board_def shape9_def list_all_iff)

lemma shape9_empties_upd:
  assumes "shape9 b" "r < 9" "c < 9" "b ! r ! c = 0" "v \<noteq> 0"
  shows "Suc (empties (upd b r c v)) = empties b"
proof -
  have "r < length b" "c < length (b ! r)"
    using assms by (simp_all add: shape9_length shape9_row)
  from empties_upd [OF this, of v] show ?thesis
    using assms by simp
qed

lemma shape9_eqI:
  assumes "shape9 S" "shape9 b" "\<And>r c. r < 9 \<Longrightarrow> c < 9 \<Longrightarrow> S ! r ! c = b ! r ! c"
  shows "S = b"
proof (rule nth_equalityI)
  show "length S = length b"
    using assms by (simp add: shape9_length)
next
  fix r assume "r < length S"
  then have r: "r < 9" using assms by (simp add: shape9_length)
  show "S ! r = b ! r"
  proof (rule nth_equalityI)
    show "length (S ! r) = length (b ! r)"
      using assms r by (simp add: shape9_row)
  next
    fix c assume "c < length (S ! r)"
    then have "c < 9" using assms r by (simp add: shape9_row)
    with r show "S ! r ! c = b ! r ! c" by (rule assms(3))
  qed
qed

lemma fills_complete:
  assumes "shape9 b" "\<forall>r<9. \<forall>c<9. b ! r ! c \<noteq> 0"
  shows "{S. fills S b} = {b}"
proof -
  have "fills S b \<longleftrightarrow> S = b" for S
  proof
    assume "fills S b"
    then show "S = b"
      using assms by (intro shape9_eqI) (auto simp add: fills_iff)
  next
    assume "S = b"
    then show "fills S b" using assms by (simp add: fills_iff)
  qed
  then show ?thesis by auto
qed

lemma fills_step_free:
  assumes b: "shape9 b" "r < 9" "c < 9" "b ! r ! c = 0"
    and n: "1 \<le> n" "n \<le> 9" and fr: "free b r c n"
  shows "fills S (upd b r c n) \<longleftrightarrow> fills S b \<and> S ! r ! c = n"
proof
  assume f: "fills S (upd b r c n)"
  have at: "S ! r ! c = n"
    using fillsD [OF f b(2,3)] b n by (simp add: shape9_nth_upd)
  have other: "if b ! r' ! c' \<noteq> 0 then S ! r' ! c' = b ! r' ! c'
               else 1 \<le> S ! r' ! c' \<and> S ! r' ! c' \<le> 9 \<and> free S r' c' (S ! r' ! c')"
    if "r' < 9" "c' < 9" "(r', c') \<noteq> (r, c)" for r' c'
  proof -
    have "upd b r c n ! r' ! c' = b ! r' ! c'"
      using that b by (auto simp add: shape9_nth_upd)
    moreover have "if upd b r c n ! r' ! c' \<noteq> 0 then S ! r' ! c' = upd b r c n ! r' ! c'
               else 1 \<le> S ! r' ! c' \<and> S ! r' ! c' \<le> 9 \<and> free S r' c' (S ! r' ! c')"
      using f that(1,2) by (rule fillsD)
    ultimately show ?thesis by simp
  qed
  have "free S r c n"
    unfolding free_iff
  proof (intro allI impI)
    fix r' c' :: nat assume rc: "r' < 9" "c' < 9" and p: "peer r c r' c'"
    then have ne: "(r', c') \<noteq> (r, c)" by (simp add: peer_def)
    show "S ! r' ! c' \<noteq> n"
    proof (cases "b ! r' ! c' = 0")
      case False
      then have "S ! r' ! c' = b ! r' ! c'" using other [OF rc ne] by simp
      moreover have "b ! r' ! c' \<noteq> n" using fr rc p by (simp add: free_iff)
      ultimately show ?thesis by simp
    next
      case True
      then have "free S r' c' (S ! r' ! c')" using other [OF rc ne] by simp
      moreover have "peer r' c' r c" using p by (simp add: peer_sym)
      ultimately have "S ! r ! c \<noteq> S ! r' ! c'"
        using b by (simp add: free_iff)
      then show ?thesis using at by simp
    qed
  qed
  then have "fills S b"
    unfolding fills_iff
  proof (intro conjI allI impI)
    show "shape9 S" using f by (simp add: fills_iff)
  next
    fix r' c' :: nat assume rc: "r' < 9" "c' < 9"
    assume frS: "free S r c n"
    show "if b ! r' ! c' \<noteq> 0 then S ! r' ! c' = b ! r' ! c'
               else 1 \<le> S ! r' ! c' \<and> S ! r' ! c' \<le> 9 \<and> free S r' c' (S ! r' ! c')"
    proof (cases "(r', c') = (r, c)")
      case True
      then show ?thesis using b n at frS by simp
    next
      case False
      then show ?thesis by (rule other [OF rc])
    qed
  qed
  with at show "fills S b \<and> S ! r ! c = n" by simp
next
  assume a: "fills S b \<and> S ! r ! c = n"
  show "fills S (upd b r c n)"
    unfolding fills_iff
  proof (intro conjI allI impI)
    show "shape9 S" using a by (simp add: fills_iff)
  next
    fix r' c' :: nat assume rc: "r' < 9" "c' < 9"
    have *: "if b ! r' ! c' \<noteq> 0 then S ! r' ! c' = b ! r' ! c'
               else 1 \<le> S ! r' ! c' \<and> S ! r' ! c' \<le> 9 \<and> free S r' c' (S ! r' ! c')"
      using a rc by (intro fillsD) simp_all
    show "if upd b r c n ! r' ! c' \<noteq> 0 then S ! r' ! c' = upd b r c n ! r' ! c'
               else 1 \<le> S ! r' ! c' \<and> S ! r' ! c' \<le> 9 \<and> free S r' c' (S ! r' ! c')"
    proof (cases "(r', c') = (r, c)")
      case True
      then show ?thesis using a b n by (simp add: shape9_nth_upd)
    next
      case False
      then have "upd b r c n ! r' ! c' = b ! r' ! c'"
        using b by (auto simp add: shape9_nth_upd)
      with * show ?thesis by simp
    qed
  qed
qed

lemma fills_step_blocked:
  assumes b: "shape9 b" "r < 9" "c < 9" "b ! r ! c = 0"
    and n: "n \<noteq> 0" and fr: "\<not> free b r c n"
  shows "\<not> (fills S b \<and> S ! r ! c = n)"
proof
  assume a: "fills S b \<and> S ! r ! c = n"
  from fr obtain r' c' where rc: "r' < 9" "c' < 9" and p: "peer r c r' c'"
    and v: "b ! r' ! c' = n"
    by (auto simp add: free_iff)
  have f: "fills S b" using a by simp
  have "S ! r' ! c' = n"
    using fillsD [OF f rc] v n by simp
  moreover have "free S r c (S ! r ! c)"
    using fillsD [OF f b(2,3)] b by simp
  ultimately show False
    using a rc p by (auto simp add: free_iff)
qed



lemma scan_cols_shape9:
  assumes "shape9 b" "row < 9"
  shows "\<forall>c\<in>set cols. c < 9 \<Longrightarrow>
           (\<exists>c. scan_cols b row cols = Inr (Some (row, c))) \<or>
           (scan_cols b row cols = Inr None \<and> (\<forall>c\<in>set cols. b ! row ! c \<noteq> 0))"
proof (induction cols)
  case Nil
  then show ?case by simp
next
  case (Cons col cols)
  then have "cell b (int row) (int col) = Inr (b ! row ! col)"
    using assms by (simp add: shape9_cell)
  with Cons show ?case by auto
qed

lemma scan_rows_shape9:
  assumes "shape9 b"
  shows "\<forall>r\<in>set rows. r < 9 \<Longrightarrow>
           (\<exists>rc. scan_rows b rows = Inr (Some rc)) \<or>
           (scan_rows b rows = Inr None \<and> (\<forall>r\<in>set rows. \<forall>c<9. b ! r ! c \<noteq> 0))"
proof (induction rows)
  case Nil
  then show ?case by simp
next
  case (Cons row rows)
  then have row: "row < 9" by simp
  have len: "length (b ! 0) = 9" using assms by (simp add: shape9_row)
  have "(\<exists>c. scan_cols b row [0..<9] = Inr (Some (row, c))) \<or>
        (scan_cols b row [0..<9] = Inr None \<and> (\<forall>c\<in>set [0..<9]. b ! row ! c \<noteq> 0))"
    by (rule scan_cols_shape9 [OF assms row]) simp
  then show ?case
  proof
    assume "\<exists>c. scan_cols b row [0..<9] = Inr (Some (row, c))"
    then show ?thesis
      by (auto simp add: shape9_index_0 [OF assms] len)
  next
    assume a: "scan_cols b row [0..<9] = Inr None \<and> (\<forall>c\<in>set [0..<9]. b ! row ! c \<noteq> 0)"
    have "(\<exists>rc. scan_rows b rows = Inr (Some rc)) \<or>
           (scan_rows b rows = Inr None \<and> (\<forall>r\<in>set rows. \<forall>c<9. b ! r ! c \<noteq> 0))"
      using Cons by simp
    then show ?thesis
      using a by (auto simp add: shape9_index_0 [OF assms] len)
  qed
qed

lemma first_empty_shape9:
  assumes "shape9 b"
  shows "(\<exists>r c. first_empty b = Inr (Some (r, c)) \<and> r < 9 \<and> c < 9 \<and> b ! r ! c = 0) \<or>
         (first_empty b = Inr None \<and> (\<forall>r<9. \<forall>c<9. b ! r ! c \<noteq> 0))"
proof -
  have "(\<exists>rc. scan_rows b [0..<9] = Inr (Some rc)) \<or>
        (scan_rows b [0..<9] = Inr None \<and> (\<forall>r\<in>set [0..<9]. \<forall>c<9. b ! r ! c \<noteq> 0))"
    by (rule scan_rows_shape9 [OF assms]) simp
  then show ?thesis
  proof
    assume "\<exists>rc. scan_rows b [0..<9] = Inr (Some rc)"
    then obtain r c where fe: "first_empty b = Inr (Some (r, c))"
      using assms by (auto simp add: first_empty_def shape9_length)
    from first_empty_Some [OF this] have "r < 9 \<and> c < 9 \<and> b ! r ! c = 0"
      using assms by (auto simp add: shape9_length shape9_row)
    with fe show ?thesis by blast
  next
    assume "scan_rows b [0..<9] = Inr None \<and> (\<forall>r\<in>set [0..<9]. \<forall>c<9. b ! r ! c \<noteq> 0)"
    then show ?thesis
      using assms by (simp add: first_empty_def shape9_length)
  qed
qed

text \<open>
  The loop over the candidate numbers, on a board whose other cells are those of
  \<open>b\<close>: it prints the completions of \<open>b\<close> that put one of the candidates at the
  cell, and leaves the other cells as they were.
\<close>

lemma try_nums_shape9:
  assumes rec: "\<And>b1 out1. shape9 b1 \<Longrightarrow> empties b1 < d \<Longrightarrow>
                  \<exists>sols. solver d b1 out1 = Some (Inr (b1, out1 @ sols)) \<and>
                         set sols = {S. fills S b1}"
    and b: "shape9 b" "r < 9" "c < 9" "b ! r ! c = 0" "empties b \<le> d"
  shows "\<forall>n\<in>set nums. 1 \<le> n \<and> n \<le> 9 \<Longrightarrow>
           \<exists>y sols. try_nums d (upd b r c x) r c nums out
                       = Some (Inr (upd b r c y, out @ sols)) \<and>
                     set sols = {S. fills S b \<and> S ! r ! c \<in> set nums}"
proof (induction nums arbitrary: x out)
  case Nil
  then show ?case by auto
next
  case (Cons n nums)
  then have n: "1 \<le> n" "n \<le> 9" by simp_all
  have mv: "move_valid (upd b r c x) (int r) (int c) n = Inr (free b r c n)"
    using b by (simp add: move_valid_shape9 shape9_upd free_upd_self)
  show ?case
  proof (cases "free b r c n")
    case False
    have none: "\<not> (fills S b \<and> S ! r ! c = n)" for S
      using b(1-4) _ False by (rule fills_step_blocked) (use n in simp)
    from Cons obtain y sols where
      t: "try_nums d (upd b r c x) r c nums out = Some (Inr (upd b r c y, out @ sols))"
      and s: "set sols = {S. fills S b \<and> S ! r ! c \<in> set nums}"
      by fastforce
    have "set sols = {S. fills S b \<and> S ! r ! c \<in> set (n # nums)}"
      using s none by auto
    moreover have "try_nums d (upd b r c x) r c (n # nums) out
                     = Some (Inr (upd b r c y, out @ sols))"
      using t mv False by simp
    ultimately show ?thesis by blast
  next
    case True
    let ?b1 = "upd b r c n"
    have sc: "set_cell (upd b r c x) (int r) (int c) n = Inr ?b1"
      using b by (simp add: shape9_set_cell shape9_upd shape9_upd_upd)
    have "Suc (empties ?b1) = empties b"
      using b(1-4) by (rule shape9_empties_upd) (use n in simp)
    then have "empties ?b1 < d" using b(5) by simp
    with rec [of ?b1 out] obtain sols1 where
      s1: "solver d ?b1 out = Some (Inr (?b1, out @ sols1))"
      and set1: "set sols1 = {S. fills S ?b1}"
      using b(1) by (auto simp add: shape9_upd)
    from Cons.IH [of n "out @ sols1"] Cons.prems obtain y sols2 where
      t: "try_nums d ?b1 r c nums (out @ sols1)
            = Some (Inr (upd b r c y, (out @ sols1) @ sols2))"
      and set2: "set sols2 = {S. fills S b \<and> S ! r ! c \<in> set nums}"
      by fastforce
    have "fills S ?b1 \<longleftrightarrow> fills S b \<and> S ! r ! c = n" for S
      using b(1-4) n True by (rule fills_step_free)
    then have "set (sols1 @ sols2) = {S. fills S b \<and> S ! r ! c \<in> set (n # nums)}"
      using set1 set2 by auto
    moreover have "try_nums d (upd b r c x) r c (n # nums) out
                     = Some (Inr (upd b r c y, out @ (sols1 @ sols2)))"
      using mv True sc s1 t by simp
    ultimately show ?thesis by blast
  qed
qed

lemma solver_shape9:
  "shape9 b \<Longrightarrow> empties b < d \<Longrightarrow>
     \<exists>sols. solver d b out = Some (Inr (b, out @ sols)) \<and> set sols = {S. fills S b}"
proof (induction d arbitrary: b out)
  case 0
  then show ?case by simp
next
  case (Suc d)
  from first_empty_shape9 [OF Suc.prems(1)] show ?case
  proof (elim disjE exE conjE)
    assume fe: "first_empty b = Inr None" and full: "\<forall>r<9. \<forall>c<9. b ! r ! c \<noteq> 0"
    have "solver (Suc d) b out = Some (Inr (b, out @ [b]))"
      using fe Suc.prems(1) by (simp add: shape9_print_board)
    moreover have "set [b] = {S. fills S b}"
      using fills_complete [OF Suc.prems(1) full] by simp
    ultimately show ?thesis by blast
  next
    fix r c
    assume fe: "first_empty b = Inr (Some (r, c))"
      and rc: "r < 9" "c < 9" and zero: "b ! r ! c = 0"
    have le: "empties b \<le> d" using Suc.prems(2) by simp
    have "\<forall>n\<in>set [1..9]. 1 \<le> n \<and> n \<le> (9::int)" by simp
    with try_nums_shape9 [of d b r c "[1..9]" 0 out, OF Suc.IH Suc.prems(1) rc zero le]
    obtain y sols where
      t: "try_nums d (upd b r c 0) r c [1..9] out = Some (Inr (upd b r c y, out @ sols))"
      and s: "set sols = {S. fills S b \<and> S ! r ! c \<in> set [1..9]}"
      by blast
    have same: "upd b r c 0 = b"
      using upd_same [of b r c] zero by simp
    have "S ! r ! c \<in> set [1..9]" if "fills S b" for S
      using fillsD [OF that rc] zero by simp
    then have "set sols = {S. fills S b}"
      using s by auto
    moreover have "set_cell (upd b r c y) (int r) (int c) 0 = Inr b"
      using Suc.prems(1) rc same by (simp add: shape9_set_cell shape9_upd shape9_upd_upd)
    then have "solver (Suc d) b out = Some (Inr (b, out @ sols))"
      using fe t same by simp
    ultimately show ?thesis by blast
  qed
qed

section \<open>The example grids\<close>

lemma shape9_solved_grid: "shape9 solved_grid"
  by code_simp

lemma shape9_two_open: "shape9 two_open"
  by code_simp

lemma empties_two_open: "empties two_open = 2"
  by code_simp

lemma solver_two_open: "solver 3 two_open [] = Some (Inr (two_open, [solved_grid]))"
  by code_simp

section \<open>The claims about the solver's effect and termination\<close>

lemma shape9_concat_length:
  assumes "shape9 b"
  shows "length (concat b) = 81"
proof -
  have "map length b = replicate 9 9"
    using assms by (auto simp add: shape9_def list_all_iff intro!: replicate_eqI)
  then show ?thesis
    by (simp add: length_concat sum_list_replicate)
qed

lemma shape9_empties_le: "shape9 b \<Longrightarrow> empties b \<le> 81"
  using count_le_length [of "concat b" 0] by (simp add: empties_def shape9_concat_length)

text \<open>
  Claim C3. For every grid, when \<^verbatim>\<open>solver\<close> returns, every cell holds the value it
  held before the call: whatever the depth bound, the board and the output at the call,
  a run that returns leaves the board it was given. (Each call resets the cell it filled,
  and the calls below it have restored the rest.)
\<close>

theorem solver_restores_board:
  "solver d b out = Some (Inr (b', out')) \<Longrightarrow> b' = b"
  by (rule solver_frame)

theorem solver_restores_board_witness:
  "solver 3 two_open [] = Some (Inr (two_open, [solved_grid])) \<and> two_open = two_open"
  using solver_two_open solver_restores_board [OF solver_two_open] by simp

text \<open>
  Claim C7. \<^verbatim>\<open>solver\<close> terminates on every 9x9 grid: the grid has at most 81 empty
  cells, and a depth bound above the number of its empty cells is never reached, so the
  call returns (and raises nothing). Every nested call is made on a board with one empty
  cell fewer, which is why that bound is enough.
\<close>

theorem solver_terminates:
  assumes "shape9 b" "empties b < d"
  shows "empties b \<le> 81 \<and> (\<exists>res. solver d b out = Some (Inr res))"
proof
  show "empties b \<le> 81" using assms(1) by (rule shape9_empties_le)
next
  from solver_shape9 [OF assms, of out] show "\<exists>res. solver d b out = Some (Inr res)"
    by blast
qed

theorem solver_terminates_witness:
  "shape9 two_open \<and> empties two_open < 3 \<and> empties two_open \<le> 81 \<and>
   (\<exists>res. solver 3 two_open [] = Some (Inr res))"
proof -
  have h: "empties two_open < 3" by (simp add: empties_two_open)
  show ?thesis
    using shape9_two_open h solver_terminates [OF shape9_two_open h, of "[]"] by simp
qed

section \<open>The claims about the checker\<close>

text \<open>
  Claim C10. For every 9x9 grid, \<^verbatim>\<open>is_complete\<close> returns True if and only if no cell
  of the grid holds 0.
\<close>

theorem is_complete_iff:
  assumes "shape9 b"
  shows "is_complete b = Inr True \<longleftrightarrow> (\<forall>r<9. \<forall>c<9. b ! r ! c \<noteq> 0)"
  by (simp add: is_complete_shape9 [OF assms])

theorem is_complete_iff_witness:
  "shape9 solved_grid \<and>
   (is_complete solved_grid = Inr True) = (\<forall>r<9. \<forall>c<9. solved_grid ! r ! c \<noteq> 0)"
  using is_complete_iff [OF shape9_solved_grid] shape9_solved_grid by simp

text \<open>
  Claim C4. For every grid, \<^verbatim>\<open>is_valid\<close> returns True if and only if, for every cell
  its loops visit, \<^verbatim>\<open>move_valid\<close> applied to the cell and the value it holds returns
  True: the validator of the grid is the conjunction, over the cells, of the check of one
  placement. (For a grid that is not rectangular a cell that cannot be read counts as
  failing; \<^verbatim>\<open>is_valid\<close> raises there.)
\<close>

theorem is_valid_conjunction_of_move_valid:
  "is_valid b = Inr True \<longleftrightarrow> list_all (cell_passes b) (scanned_cells b)"
  by (simp add: is_valid_True_iff list_all_iff)

theorem is_valid_conjunction_of_move_valid_witness:
  "(is_valid solved_grid = Inr True) = list_all (cell_passes solved_grid) (scanned_cells solved_grid)
   \<and> is_valid solved_grid = Inr True"
proof -
  have "list_all (cell_passes solved_grid) (scanned_cells solved_grid)" by code_simp
  then show ?thesis
    using is_valid_conjunction_of_move_valid [of solved_grid] by simp
qed

lemma free_cong_elsewhere:
  assumes "\<forall>r'<9. \<forall>c'<9. (r', c') \<noteq> (r, c) \<longrightarrow> b ! r' ! c' = b' ! r' ! c'"
  shows "free b r c v \<longleftrightarrow> free b' r c v"
proof -
  have "b ! r' ! c' = b' ! r' ! c'" if "r' < 9" "c' < 9" "peer r c r' c'" for r' c'
    using assms that by (simp add: peer_def)
  then show ?thesis
    unfolding free_iff by simp
qed

text \<open>
  Claim C8. For every 9x9 grid, every cell and every value, the result of
  \<^verbatim>\<open>move_valid\<close> does not depend on the value stored at the cell: two grids that differ
  at most there give the same result, and so storing the value itself at the cell first
  changes nothing (no conflict of the cell with itself is reported).
\<close>

theorem move_valid_ignores_own_cell:
  assumes "shape9 b" "shape9 b'" "r < 9" "c < 9"
    and "\<forall>r'<9. \<forall>c'<9. (r', c') \<noteq> (r, c) \<longrightarrow> b ! r' ! c' = b' ! r' ! c'"
  shows "move_valid b (int r) (int c) v = move_valid b' (int r) (int c) v \<and>
         move_valid (upd b r c v) (int r) (int c) v = move_valid b (int r) (int c) v"
proof
  have "free b r c v \<longleftrightarrow> free b' r c v"
    using assms(5) by (rule free_cong_elsewhere)
  then show "move_valid b (int r) (int c) v = move_valid b' (int r) (int c) v"
    by (simp only: move_valid_shape9 [OF assms(1,3,4)] move_valid_shape9 [OF assms(2,3,4)])
next
  have "shape9 (upd b r c v)" using assms(1) by (rule shape9_upd)
  then show "move_valid (upd b r c v) (int r) (int c) v = move_valid b (int r) (int c) v"
    by (simp only: move_valid_shape9 [OF _ assms(3,4)] assms(1)
        free_upd_self [OF assms(1,3,4)])
qed

lemma two_open_elsewhere:
  "\<forall>r'<9. \<forall>c'<9. (r', c') \<noteq> (0, 1) \<longrightarrow>
             two_open ! r' ! c' = upd two_open 0 1 5 ! r' ! c'"
proof (intro allI impI)
  fix r' c' :: nat
  assume "r' < 9" "c' < 9" "(r', c') \<noteq> (0, 1)"
  have "upd two_open 0 1 5 ! r' ! c' = (if r' = 0 \<and> c' = 1 then 5 else two_open ! r' ! c')"
    by (rule shape9_nth_upd [OF shape9_two_open]) simp_all
  with \<open>(r', c') \<noteq> (0, 1)\<close> show "two_open ! r' ! c' = upd two_open 0 1 5 ! r' ! c'"
    by auto
qed

theorem move_valid_ignores_own_cell_witness:
  "shape9 two_open \<and> shape9 (upd two_open 0 1 5) \<and> (0::nat) < 9 \<and> (1::nat) < 9 \<and>
   move_valid two_open (int 0) (int 1) 5 = move_valid (upd two_open 0 1 5) (int 0) (int 1) 5"
proof -
  have s: "shape9 (upd two_open 0 1 5)" by (rule shape9_upd [OF shape9_two_open])
  have r: "(0::nat) < 9" and c: "(1::nat) < 9" by simp_all
  from move_valid_ignores_own_cell [OF shape9_two_open s r c two_open_elsewhere, of 5]
  have "move_valid two_open (int 0) (int 1) 5 = move_valid (upd two_open 0 1 5) (int 0) (int 1) 5"
    by (rule conjunct1)
  with shape9_two_open s r c show ?thesis by blast
qed

lemma in_row_iff:
  "shape9 b \<Longrightarrow> r < 9 \<Longrightarrow> v \<in> set (row_of b r) \<longleftrightarrow> (\<exists>i<9. b ! r ! i = v)"
  by (simp add: row_of_def in_set_conv_nth shape9_row)

lemma in_col_iff:
  assumes "shape9 b"
  shows "v \<in> set (col_of b c) \<longleftrightarrow> (\<exists>i<9. b ! i ! c = v)"
proof -
  have "length (col_of b c) = 9" using assms by (simp add: col_of_def shape9_length)
  moreover have "col_of b c ! i = b ! i ! c" if "i < 9" for i
    using that assms by (simp add: col_of_def shape9_length)
  ultimately show ?thesis
    by (auto simp add: in_set_conv_nth)
qed

lemma box_of_nth:
  "k < 9 \<Longrightarrow> box_of b r c ! k = b ! (r div 3 * 3 + k div 3) ! (c div 3 * 3 + k mod 3)"
  by (simp add: box_of_def)

lemma length_box_of: "length (box_of b r c) = 9"
  by (simp add: box_of_def)

lemma in_box_iff:
  "v \<in> set (box_of b r c) \<longleftrightarrow>
     (\<exists>i<3. \<exists>j<3. b ! (r div 3 * 3 + i) ! (c div 3 * 3 + j) = v)"
proof
  assume "v \<in> set (box_of b r c)"
  then obtain k where k: "k < 9" "box_of b r c ! k = v"
    by (auto simp add: in_set_conv_nth length_box_of)
  have "k div 3 < 3" "k mod 3 < 3" using k(1) by simp_all
  moreover have "b ! (r div 3 * 3 + k div 3) ! (c div 3 * 3 + k mod 3) = v"
    using k by (simp add: box_of_nth)
  ultimately show "\<exists>i<3. \<exists>j<3. b ! (r div 3 * 3 + i) ! (c div 3 * 3 + j) = v"
    by blast
next
  assume "\<exists>i<3. \<exists>j<3. b ! (r div 3 * 3 + i) ! (c div 3 * 3 + j) = v"
  then obtain i j where ij: "i < 3" "j < 3" "b ! (r div 3 * 3 + i) ! (c div 3 * 3 + j) = v"
    by blast
  have "3 * i + j < 9" "(3 * i + j) div 3 = i" "(3 * i + j) mod 3 = j"
    using ij(1,2) by simp_all
  then have "3 * i + j < length (box_of b r c)" "box_of b r c ! (3 * i + j) = v"
    using ij(3) by (simp_all add: box_of_nth length_box_of)
  then show "v \<in> set (box_of b r c)"
    by (metis nth_mem)
qed

text \<open>
  Claim C5. For every 9x9 grid, every empty cell \<open>(r, c)\<close> and every value \<open>v\<close> from 1
  to 9, \<^verbatim>\<open>move_valid\<close> returns True if and only if \<open>v\<close> appears nowhere in row \<open>r\<close>,
  nowhere in column \<open>c\<close> and nowhere in the box of the cell; it returns False otherwise
  and never raises.
\<close>

theorem move_valid_iff_absent:
  assumes "shape9 b" "r < 9" "c < 9" "b ! r ! c = 0" "1 \<le> v" "v \<le> 9"
  shows "move_valid b (int r) (int c) v =
           Inr (v \<notin> set (row_of b r) \<and> v \<notin> set (col_of b c) \<and> v \<notin> set (box_of b r c))"
proof -
  have own: "b ! r ! c \<noteq> v" using assms(4,5) by simp
  have "(\<forall>i<9. i \<noteq> c \<longrightarrow> b ! r ! i \<noteq> v) \<longleftrightarrow> v \<notin> set (row_of b r)"
    unfolding in_row_iff [OF assms(1,2)] using own by auto
  moreover have "(\<forall>i<9. i \<noteq> r \<longrightarrow> b ! i ! c \<noteq> v) \<longleftrightarrow> v \<notin> set (col_of b c)"
    unfolding in_col_iff [OF assms(1)] using own by auto
  moreover have "(\<forall>i<3. \<forall>j<3. \<not> (r div 3 * 3 + i = r \<and> c div 3 * 3 + j = c)
                  \<longrightarrow> b ! (r div 3 * 3 + i) ! (c div 3 * 3 + j) \<noteq> v)
                 \<longleftrightarrow> v \<notin> set (box_of b r c)"
    (is "?scan \<longleftrightarrow> _")
  proof
    assume scan: ?scan
    show "v \<notin> set (box_of b r c)"
      unfolding in_box_iff
    proof (intro notI, elim exE conjE)
      fix i j :: nat
      assume ij: "i < 3" "j < 3" and v: "b ! (r div 3 * 3 + i) ! (c div 3 * 3 + j) = v"
      have "\<not> (r div 3 * 3 + i = r \<and> c div 3 * 3 + j = c)"
        using own v by auto
      with scan ij have "b ! (r div 3 * 3 + i) ! (c div 3 * 3 + j) \<noteq> v" by blast
      with v show False by simp
    qed
  next
    assume "v \<notin> set (box_of b r c)"
    then show ?scan unfolding in_box_iff by blast
  qed
  ultimately have "free b r c v \<longleftrightarrow>
      v \<notin> set (row_of b r) \<and> v \<notin> set (col_of b c) \<and> v \<notin> set (box_of b r c)"
    unfolding free_iff_scans [OF assms(2,3)] by simp
  then show ?thesis
    by (simp only: move_valid_shape9 [OF assms(1-3)])
qed

lemma two_open_cell_0_1: "two_open ! 0 ! 1 = 0"
  by code_simp

theorem move_valid_iff_absent_witness:
  "shape9 two_open \<and> (0::nat) < 9 \<and> (1::nat) < 9 \<and> two_open ! 0 ! 1 = 0 \<and>
   (1::int) \<le> 5 \<and> (5::int) \<le> 9 \<and>
   move_valid two_open (int 0) (int 1) 5 =
     Inr (5 \<notin> set (row_of two_open 0) \<and> 5 \<notin> set (col_of two_open 1) \<and>
          5 \<notin> set (box_of two_open 0 1))"
proof -
  have r: "(0::nat) < 9" and c: "(1::nat) < 9" and lo: "(1::int) \<le> 5" and hi: "(5::int) \<le> 9"
    by simp_all
  from move_valid_iff_absent [OF shape9_two_open r c two_open_cell_0_1 lo hi]
    shape9_two_open r c two_open_cell_0_1 lo hi
  show ?thesis by blast
qed

lemma perm19_iff_distinct:
  assumes "length xs = 9" "\<forall>x\<in>set xs. 1 \<le> x \<and> x \<le> 9"
  shows "perm19 xs \<longleftrightarrow> distinct xs"
proof
  assume "perm19 xs"
  then have "mset xs = mset [1..9]" by (simp add: perm19_def)
  moreover have "distinct [1..(9::int)]" by simp
  ultimately show "distinct xs" by (metis mset_eq_imp_distinct_iff)
next
  assume d: "distinct xs"
  have sub: "set xs \<subseteq> {1..9}" using assms(2) by auto
  have "card (set xs) = 9" using d assms(1) by (simp add: distinct_card)
  then have "card (set xs) = card {1..(9::int)}" by simp
  with sub have "set xs = {1..9}" by (intro card_subset_eq) simp_all
  then have "set xs = set [1..9]" by simp
  with d show "perm19 xs"
    unfolding perm19_def by (intro iffD1 [OF set_eq_iff_mset_eq_distinct]) simp_all
qed

lemma filled19_cell:
  "shape9 b \<Longrightarrow> filled19 b \<Longrightarrow> r < 9 \<Longrightarrow> c < 9 \<Longrightarrow> 1 \<le> b ! r ! c \<and> b ! r ! c \<le> 9"
  by (simp add: filled19_def list_all_length shape9_length shape9_row)


lemma row_of_nth: "row_of b r ! i = b ! r ! i"
  by (simp add: row_of_def)

lemma length_row_of: "shape9 b \<Longrightarrow> r < 9 \<Longrightarrow> length (row_of b r) = 9"
  by (simp add: row_of_def shape9_row)

lemma col_of_nth: "shape9 b \<Longrightarrow> i < 9 \<Longrightarrow> col_of b c ! i = b ! i ! c"
  by (simp add: col_of_def shape9_length)

lemma length_col_of: "shape9 b \<Longrightarrow> length (col_of b c) = 9"
  by (simp add: col_of_def shape9_length)

lemma box_of_corner_nth:
  "k < 9 \<Longrightarrow> box_of b (3 * i) (3 * j) ! k = b ! (3 * i + k div 3) ! (3 * j + k mod 3)"
proof -
  assume k: "k < 9"
  have "(3 * i) div 3 * 3 = 3 * i" "(3 * j) div 3 * 3 = 3 * j" by simp_all
  then show ?thesis
    unfolding box_of_nth [OF k] by (simp only:)
qed

lemma box_cell_index:
  fixes r c :: nat
  shows "3 * (r div 3) + (3 * (r mod 3) + c mod 3) div 3 = r"
    and "3 * (c div 3) + (3 * (r mod 3) + c mod 3) mod 3 = c"
    and "3 * (r mod 3) + c mod 3 < 9"
proof -
  have m: "r mod 3 < 3" "c mod 3 < 3" by simp_all
  have "(3 * (r mod 3) + c mod 3) div 3 = r mod 3" "(3 * (r mod 3) + c mod 3) mod 3 = c mod 3"
    using m(2) by simp_all
  then show "3 * (r div 3) + (3 * (r mod 3) + c mod 3) div 3 = r"
    and "3 * (c div 3) + (3 * (r mod 3) + c mod 3) mod 3 = c"
    by simp_all
  show "3 * (r mod 3) + c mod 3 < 9" using m by linarith
qed

lemma box_cell_index_inj:
  fixes r c r' c' :: nat
  assumes "r' div 3 = r div 3" "c' div 3 = c div 3"
    "3 * (r' mod 3) + c' mod 3 = 3 * (r mod 3) + c mod 3"
  shows "r' = r \<and> c' = c"
proof -
  have "r' mod 3 < 3" "c' mod 3 < 3" "r mod 3 < 3" "c mod 3 < 3" by simp_all
  with assms(3) have mr: "r' mod 3 = r mod 3" by linarith
  with assms(3) have m: "r' mod 3 = r mod 3" "c' mod 3 = c mod 3" by simp_all
  have "r' = 3 * (r' div 3) + r' mod 3" "r = 3 * (r div 3) + r mod 3"
    "c' = 3 * (c' div 3) + c' mod 3" "c = 3 * (c div 3) + c mod 3"
    by simp_all
  with m assms(1,2) show ?thesis by metis
qed

lemma box_corner_cells:
  fixes i j k :: nat
  assumes "i < 3" "j < 3" "k < 9"
  shows "3 * i + k div 3 < 9" "3 * j + k mod 3 < 9"
    "(3 * i + k div 3) div 3 = i" "(3 * j + k mod 3) div 3 = j"
proof -
  have "k div 3 < 3" "k mod 3 < 3" using assms(3) by simp_all
  then show "3 * i + k div 3 < 9" "3 * j + k mod 3 < 9"
    "(3 * i + k div 3) div 3 = i" "(3 * j + k mod 3) div 3 = j"
    using assms(1,2) by simp_all
qed

lemma all_free_imp_distinct:
  assumes b: "shape9 b" and fr: "\<forall>r<9. \<forall>c<9. free b r c (b ! r ! c)"
  shows "(\<forall>r<9. distinct (row_of b r)) \<and> (\<forall>c<9. distinct (col_of b c)) \<and>
         (\<forall>i<3. \<forall>j<3. distinct (box_of b (3 * i) (3 * j)))"
proof -
  have ne: "b ! r' ! c' \<noteq> b ! r ! c"
    if "r < 9" "c < 9" "r' < 9" "c' < 9" "peer r c r' c'" for r c r' c'
    using fr that unfolding free_iff by blast
  have rows: "distinct (row_of b r)" if r: "r < 9" for r
    unfolding distinct_conv_nth length_row_of [OF b r] row_of_nth
  proof (intro allI impI)
    fix i j :: nat assume "i < 9" "j < 9" "i \<noteq> j"
    then show "b ! r ! i \<noteq> b ! r ! j"
      using r by (intro ne) (simp_all add: peer_def)
  qed
  have cols: "distinct (col_of b c)" if c: "c < 9" for c
    unfolding distinct_conv_nth length_col_of [OF b]
  proof (intro allI impI)
    fix i j :: nat assume ij: "i < 9" "j < 9" "i \<noteq> j"
    then have "b ! i ! c \<noteq> b ! j ! c"
      using c by (intro ne) (simp_all add: peer_def)
    then show "col_of b c ! i \<noteq> col_of b c ! j"
      using ij by (simp add: col_of_nth [OF b])
  qed
  have boxes: "distinct (box_of b (3 * i) (3 * j))" if ij: "i < 3" "j < 3" for i j
    unfolding distinct_conv_nth length_box_of
  proof (intro allI impI)
    fix k l :: nat assume kl: "k < 9" "l < 9" "k \<noteq> l"
    have "\<not> (k div 3 = l div 3 \<and> k mod 3 = l mod 3)"
      using kl(3) by (metis div_mult_mod_eq)
    then have "peer (3 * i + l div 3) (3 * j + l mod 3) (3 * i + k div 3) (3 * j + k mod 3)"
      using ij kl by (auto simp add: peer_def box_corner_cells)
    moreover have "3 * i + k div 3 < 9" "3 * j + k mod 3 < 9" "3 * i + l div 3 < 9" "3 * j + l mod 3 < 9"
      using ij kl by (simp_all add: box_corner_cells)
    ultimately have "b ! (3 * i + k div 3) ! (3 * j + k mod 3)
                       \<noteq> b ! (3 * i + l div 3) ! (3 * j + l mod 3)"
      by (intro ne)
    then show "box_of b (3 * i) (3 * j) ! k \<noteq> box_of b (3 * i) (3 * j) ! l"
      using kl by (simp add: box_of_corner_nth)
  qed
  from rows cols boxes show ?thesis by blast
qed

lemma distinct_imp_all_free:
  assumes b: "shape9 b"
    and rows: "\<forall>r<9. distinct (row_of b r)" and cols: "\<forall>c<9. distinct (col_of b c)"
    and boxes: "\<forall>i<3. \<forall>j<3. distinct (box_of b (3 * i) (3 * j))"
  shows "\<forall>r<9. \<forall>c<9. free b r c (b ! r ! c)"
  unfolding free_iff
proof (intro allI impI)
  fix r c r' c' :: nat
  assume rc: "r < 9" "c < 9" "r' < 9" "c' < 9" and p: "peer r c r' c'"
  from p consider (row) "r' = r" "c' \<noteq> c" | (col) "c' = c" "r' \<noteq> r"
    | (box) "r' div 3 = r div 3" "c' div 3 = c div 3" "\<not> (r' = r \<and> c' = c)"
    by (auto simp add: peer_def)
  then show "b ! r' ! c' \<noteq> b ! r ! c"
  proof cases
    case row
    have "distinct (row_of b r)" using rows rc(1) by blast
    then have "row_of b r ! c' \<noteq> row_of b r ! c"
      using row(2) rc by (simp add: nth_eq_iff_index_eq length_row_of [OF b])
    then show ?thesis using row(1) by (simp add: row_of_nth)
  next
    case col
    have "distinct (col_of b c)" using cols rc(2) by blast
    then have "col_of b c ! r' \<noteq> col_of b c ! r"
      using col(2) rc by (simp add: nth_eq_iff_index_eq length_col_of [OF b])
    then show ?thesis using col(1) rc by (simp add: col_of_nth [OF b])
  next
    case box
    let ?k = "3 * (r mod 3) + c mod 3" and ?l = "3 * (r' mod 3) + c' mod 3"
    let ?B = "box_of b (3 * (r div 3)) (3 * (c div 3))"
    have "r div 3 < 3" "c div 3 < 3" using rc by simp_all
    then have d: "distinct ?B" using boxes by blast
    have "?l \<noteq> ?k"
      using box_cell_index_inj [OF box(1,2)] box(3) by blast
    then have "?B ! ?l \<noteq> ?B ! ?k"
      using d by (simp add: nth_eq_iff_index_eq length_box_of box_cell_index(3))
    moreover have "?B ! ?k = b ! r ! c"
      by (simp add: box_of_corner_nth box_cell_index)
    moreover have "?B ! ?l = b ! r' ! c'"
    proof -
      have "?B = box_of b (3 * (r' div 3)) (3 * (c' div 3))"
        using box(1,2) by simp
      then show ?thesis
        by (simp add: box_of_corner_nth box_cell_index)
    qed
    ultimately show ?thesis by simp
  qed
qed

text \<open>
  Claim C6. For every completely filled 9x9 grid (every cell holds a value from 1 to 9),
  \<^verbatim>\<open>is_valid\<close> returns True if and only if every row, every column and every 3x3 box
  of the grid is a permutation of 1..9. The nine boxes are those with corners
  \<open>(3 i, 3 j)\<close>.
\<close>

theorem is_valid_iff_permutations:
  assumes "shape9 b" "filled19 b"
  shows "is_valid b = Inr True \<longleftrightarrow>
           (\<forall>r<9. perm19 (row_of b r)) \<and> (\<forall>c<9. perm19 (col_of b c)) \<and>
           (\<forall>i<3. \<forall>j<3. perm19 (box_of b (3 * i) (3 * j)))"
proof -
  have cellr: "1 \<le> b ! r ! c \<and> b ! r ! c \<le> 9" if "r < 9" "c < 9" for r c
    using assms that by (rule filled19_cell)
  have prow: "perm19 (row_of b r) \<longleftrightarrow> distinct (row_of b r)" if r: "r < 9" for r
  proof (rule perm19_iff_distinct)
    show "length (row_of b r) = 9" using assms(1) r by (rule length_row_of)
    show "\<forall>x\<in>set (row_of b r). 1 \<le> x \<and> x \<le> 9"
      using cellr r by (auto simp add: in_row_iff [OF assms(1) r])
  qed
  have pcol: "perm19 (col_of b c) \<longleftrightarrow> distinct (col_of b c)" if c: "c < 9" for c
  proof (rule perm19_iff_distinct)
    show "length (col_of b c) = 9" using assms(1) by (rule length_col_of)
    show "\<forall>x\<in>set (col_of b c). 1 \<le> x \<and> x \<le> 9"
      using cellr c by (auto simp add: in_col_iff [OF assms(1)])
  qed
  have pbox: "perm19 (box_of b (3 * i) (3 * j)) \<longleftrightarrow> distinct (box_of b (3 * i) (3 * j))"
    if ij: "i < 3" "j < 3" for i j
  proof (rule perm19_iff_distinct)
    show "length (box_of b (3 * i) (3 * j)) = 9" by (rule length_box_of)
    show "\<forall>x\<in>set (box_of b (3 * i) (3 * j)). 1 \<le> x \<and> x \<le> 9"
    proof
      fix x assume "x \<in> set (box_of b (3 * i) (3 * j))"
      then obtain k where k: "k < 9" "x = box_of b (3 * i) (3 * j) ! k"
        by (auto simp add: in_set_conv_nth length_box_of)
      have "3 * i + k div 3 < 9" "3 * j + k mod 3 < 9"
        using ij k(1) by (simp_all add: box_corner_cells)
      then show "1 \<le> x \<and> x \<le> 9"
        using cellr k by (simp add: box_of_corner_nth)
    qed
  qed
  have "is_valid b = Inr True \<longleftrightarrow> (\<forall>r<9. \<forall>c<9. free b r c (b ! r ! c))"
    by (simp add: is_valid_shape9 [OF assms(1)])
  also have "\<dots> \<longleftrightarrow> (\<forall>r<9. distinct (row_of b r)) \<and> (\<forall>c<9. distinct (col_of b c)) \<and>
         (\<forall>i<3. \<forall>j<3. distinct (box_of b (3 * i) (3 * j)))"
    using all_free_imp_distinct [OF assms(1)] distinct_imp_all_free [OF assms(1)] by blast
  also have "\<dots> \<longleftrightarrow> (\<forall>r<9. perm19 (row_of b r)) \<and> (\<forall>c<9. perm19 (col_of b c)) \<and>
           (\<forall>i<3. \<forall>j<3. perm19 (box_of b (3 * i) (3 * j)))"
    using prow pcol pbox by simp
  finally show ?thesis .
qed

lemma filled19_solved_grid: "filled19 solved_grid"
  by code_simp

theorem is_valid_iff_permutations_witness:
  "shape9 solved_grid \<and> filled19 solved_grid \<and>
   (is_valid solved_grid = Inr True) =
     ((\<forall>r<9. perm19 (row_of solved_grid r)) \<and> (\<forall>c<9. perm19 (col_of solved_grid c)) \<and>
      (\<forall>i<3. \<forall>j<3. perm19 (box_of solved_grid (3 * i) (3 * j))))"
  using is_valid_iff_permutations [OF shape9_solved_grid filled19_solved_grid]
    shape9_solved_grid filled19_solved_grid by blast

section \<open>The zero cells in the validity check\<close>

lemma scanned_cells_shape9:
  assumes "shape9 b"
  shows "list_all P (scanned_cells b) \<longleftrightarrow> (\<forall>r<9. \<forall>c<9. P (r, c))"
proof -
  have "b \<noteq> []" using assms by (auto simp add: shape9_def)
  then have "length (hd b) = 9"
    using shape9_row [OF assms, of 0] by (simp add: hd_conv_nth)
  then show ?thesis
    using assms by (auto simp add: scanned_cells_def list_all_iff shape9_length)
qed

lemma is_valid_exempt0_shape9:
  assumes "shape9 b"
  shows "is_valid_exempt0 b \<longleftrightarrow> (\<forall>r<9. \<forall>c<9. b ! r ! c \<noteq> 0 \<longrightarrow> free b r c (b ! r ! c))"
  unfolding is_valid_exempt0_def scanned_cells_shape9 [OF assms]
  using assms by (auto simp add: shape9_cell move_valid_shape9)

lemma zeros_apart_iff:
  "zeros_apart b \<longleftrightarrow> (\<forall>r<9. \<forall>c<9. b ! r ! c = 0 \<longrightarrow> free b r c (b ! r ! c))"
  by (auto simp add: zeros_apart_def)

text \<open>
  Claim C1 says that cells holding 0 are exempt from the scan of \<^verbatim>\<open>is_valid\<close>, so that
  empty cells alone never make it return False. The program has no such exemption: it
  reads 0 like any other value. In the grid \<open>two_open\<close> every nonzero cell passes its
  scan, and \<^verbatim>\<open>is_valid\<close> returns False because of the two empty cells of the first row.
\<close>

theorem is_valid_two_open_counterexample:
  "is_valid_exempt0 two_open \<and> is_valid two_open = Inr False"
  by code_simp

text \<open>
  Claim C1, amended. For every 9x9 grid, \<^verbatim>\<open>is_valid\<close> returns True if and only if
  every nonzero cell passes the scan and no two empty cells share a row, a column or a
  box; it returns False otherwise. Empty cells are harmless exactly when they are apart.
\<close>

theorem is_valid_counts_empty_cells:
  assumes "shape9 b"
  shows "is_valid b = Inr (is_valid_exempt0 b \<and> zeros_apart b)"
proof -
  have "(\<forall>r<9. \<forall>c<9. free b r c (b ! r ! c)) \<longleftrightarrow> is_valid_exempt0 b \<and> zeros_apart b"
    unfolding is_valid_exempt0_shape9 [OF assms] zeros_apart_iff by blast
  then show ?thesis
    by (simp only: is_valid_shape9 [OF assms])
qed

theorem is_valid_counts_empty_cells_witness:
  "shape9 two_open \<and> is_valid two_open = Inr (is_valid_exempt0 two_open \<and> zeros_apart two_open)"
  using is_valid_counts_empty_cells [OF shape9_two_open] shape9_two_open by blast

section \<open>What the solver produces\<close>

lemma is_solution_iff:
  "is_solution S b \<longleftrightarrow> shape9 S \<and>
     (\<forall>r<9. \<forall>c<9. if b ! r ! c \<noteq> 0 then S ! r ! c = b ! r ! c
                   else 1 \<le> S ! r ! c \<and> S ! r ! c \<le> 9) \<and>
     (\<forall>r<9. \<forall>c<9. free S r c (S ! r ! c)) \<and> (\<forall>r<9. \<forall>c<9. S ! r ! c \<noteq> 0)"
proof (cases "shape9 S")
  case True
  then show ?thesis
    by (simp add: is_solution_def is_valid_shape9 is_complete_shape9 Ball_def)
next
  case False
  then show ?thesis by (simp add: is_solution_def)
qed

lemma is_solution_fills:
  assumes "is_solution S b"
  shows "fills S b"
  unfolding fills_iff
proof (intro conjI allI impI)
  show "shape9 S" using assms by (simp add: is_solution_iff)
next
  fix r c :: nat assume rc: "r < 9" "c < 9"
  have "if b ! r ! c \<noteq> 0 then S ! r ! c = b ! r ! c
        else 1 \<le> S ! r ! c \<and> S ! r ! c \<le> 9"
    using assms rc unfolding is_solution_iff by blast
  moreover have "free S r c (S ! r ! c)"
    using assms rc unfolding is_solution_iff by blast
  ultimately show "if b ! r ! c \<noteq> 0 then S ! r ! c = b ! r ! c
        else 1 \<le> S ! r ! c \<and> S ! r ! c \<le> 9 \<and> free S r c (S ! r ! c)"
    by simp
qed

lemma fills_is_solution:
  assumes S0: "is_solution S0 b" and f: "fills S b"
  shows "is_solution S b"
  unfolding is_solution_iff
proof (intro conjI allI impI)
  show "shape9 S" using f by (simp add: fills_iff)
next
  fix r c :: nat assume rc: "r < 9" "c < 9"
  from fillsD [OF f rc]
  show "if b ! r ! c \<noteq> 0 then S ! r ! c = b ! r ! c
        else 1 \<le> S ! r ! c \<and> S ! r ! c \<le> 9"
    by (simp split: if_splits)
next
  fix r c :: nat assume rc: "r < 9" "c < 9"
  from fillsD [OF f rc] show "S ! r ! c \<noteq> 0"
    by (auto split: if_splits)
next
  fix r c :: nat assume rc: "r < 9" "c < 9"
  show "free S r c (S ! r ! c)"
  proof (cases "b ! r ! c = 0")
    case True
    with fillsD [OF f rc] show ?thesis by simp
  next
    case given: False
    then have Src: "S ! r ! c = b ! r ! c" using fillsD [OF f rc] by simp
    have S0rc: "S0 ! r ! c = b ! r ! c"
      using S0 rc given unfolding is_solution_iff by (metis (full_types))
    show ?thesis
      unfolding free_iff
    proof (intro allI impI)
      fix r' c' :: nat assume rc': "r' < 9" "c' < 9" and p: "peer r c r' c'"
      show "S ! r' ! c' \<noteq> S ! r ! c"
      proof (cases "b ! r' ! c' = 0")
        case True
        then have "free S r' c' (S ! r' ! c')" using fillsD [OF f rc'] by simp
        moreover have "peer r' c' r c" using p by (simp add: peer_sym)
        ultimately have "S ! r ! c \<noteq> S ! r' ! c'"
          using rc unfolding free_iff by blast
        then show ?thesis by simp
      next
        case False
        then have "S ! r' ! c' = b ! r' ! c'" using fillsD [OF f rc'] by simp
        moreover have "S0 ! r' ! c' = b ! r' ! c'"
          using S0 rc' False unfolding is_solution_iff by (metis (full_types))
        moreover have "free S0 r c (S0 ! r ! c)"
          using S0 rc unfolding is_solution_iff by blast
        then have "S0 ! r' ! c' \<noteq> S0 ! r ! c"
          using rc' p unfolding free_iff by blast
        ultimately show ?thesis using Src S0rc by simp
      qed
    qed
  qed
qed

text \<open>
  Claim C2 says that on return \<^verbatim>\<open>solver\<close> has mutated the grid to a solved state. It
  has not: the grid \<open>two_open\<close> has the solution \<open>solved_grid\<close>, the call prints that
  solution and returns with the grid as it was given, two cells still empty.
\<close>

theorem solver_two_open_counterexample:
  "is_solution solved_grid two_open \<and>
   solver 3 two_open [] = Some (Inr (two_open, [solved_grid])) \<and>
   is_complete two_open = Inr False"
  by code_simp

text \<open>
  Claim C2, amended. For every 9x9 grid that has at least one solution, \<^verbatim>\<open>solver\<close>
  terminates (any depth bound above the number of empty cells is enough), returns with
  the grid unchanged, and has printed the solved grids: the boards it printed are exactly
  the solutions of the grid, the given one among them, and \<^verbatim>\<open>is_valid\<close> and
  \<^verbatim>\<open>is_complete\<close> return True for each.
\<close>

theorem solver_prints_solutions:
  assumes "shape9 b" "is_solution S0 b" "empties b < d"
  shows "\<exists>sols. solver d b out = Some (Inr (b, out @ sols)) \<and>
           S0 \<in> set sols \<and> set sols = {S. is_solution S b} \<and>
           list_all (\<lambda>S. is_valid S = Inr True \<and> is_complete S = Inr True) sols"
proof -
  from solver_shape9 [OF assms(1,3), of out] obtain sols where
    run: "solver d b out = Some (Inr (b, out @ sols))" and s: "set sols = {S. fills S b}"
    by blast
  have "fills S b \<longleftrightarrow> is_solution S b" for S
    using is_solution_fills fills_is_solution [OF assms(2)] by blast
  with s have sols: "set sols = {S. is_solution S b}" by simp
  then have "S0 \<in> set sols" using assms(2) by simp
  moreover have "list_all (\<lambda>S. is_valid S = Inr True \<and> is_complete S = Inr True) sols"
    using sols by (auto simp add: list_all_iff is_solution_def)
  ultimately show ?thesis using run sols by blast
qed

lemma is_solution_two_open: "is_solution solved_grid two_open"
  by code_simp

theorem solver_prints_solutions_witness:
  "shape9 two_open \<and> is_solution solved_grid two_open \<and> empties two_open < 3 \<and>
   (\<exists>sols. solver 3 two_open [] = Some (Inr (two_open, [] @ sols)) \<and>
           solved_grid \<in> set sols \<and> set sols = {S. is_solution S two_open} \<and>
           list_all (\<lambda>S. is_valid S = Inr True \<and> is_complete S = Inr True) sols)"
proof -
  have h: "empties two_open < 3" by (simp add: empties_two_open)
  from solver_prints_solutions [OF shape9_two_open is_solution_two_open h, of "[]"]
    shape9_two_open is_solution_two_open h
  show ?thesis by blast
qed

section \<open>The checker leaves the board alone\<close>

lemma then_do_Inr: "m b = (Inr x, b') \<Longrightarrow> then_do m f b = f x b'"
  by (simp add: then_do_def)

lemma then_do_pure:
  assumes "m b = (res, b)" "\<And>x. res = Inr x \<Longrightarrow> f x b = (g x, b)"
  shows "then_do m f b = (and_then res g, b)"
  using assms by (cases res) (simp_all add: then_do_def)

lemma returns_apply: "returns x b = (Inr x, b)"
  by (simp add: returns_def)

lemma then_do_read_len: "then_do read_len f b = f (length b) b"
  by (simp add: then_do_def read_len_def)

lemma then_do_lift:
  assumes "\<And>x. m = Inr x \<Longrightarrow> f x b = (g x, b)"
  shows "then_do (lift m) f b = (and_then m g, b)"
  by (rule then_do_pure) (simp_all add: lift_def assms)

lemma loop_pure:
  assumes "\<And>x. x \<in> set xs \<Longrightarrow> body x b = (g x, b)"
  shows "loop body xs b = (for_each g xs, b)"
  using assms
proof (induction xs)
  case Nil
  show ?case by (simp add: returns_apply)
next
  case (Cons x xs)
  have "then_do (body x) (\<lambda>go_on. if go_on then loop body xs else returns False) b
          = (and_then (g x) (\<lambda>go_on. if go_on then for_each g xs else Inr False), b)"
  proof (rule then_do_pure)
    show "body x b = (g x, b)" using Cons.prems by simp
  next
    fix go_on assume "g x = Inr go_on"
    show "(if go_on then loop body xs else returns False) b
            = (if go_on then for_each g xs else Inr False, b)"
      using Cons by (simp add: returns_apply)
  qed
  then show ?case by simp
qed

lemma read_cell_pure:
  "then_do (read_cell row col) (\<lambda>v. returns (f v)) b = (and_then (cell b row col) (\<lambda>v. Inr (f v)), b)"
  by (rule then_do_pure) (simp_all add: read_cell_def returns_apply)

lemma row_scan_run_pure: "row_scan_run row col num b = (row_scan b row col num, b)"
proof -
  have "then_do read_len0 (\<lambda>n0.
       loop (\<lambda>i. if int i \<noteq> col
                  then then_do (read_cell row (int i)) (\<lambda>v. returns (v \<noteq> num))
                  else returns True) [0..<n0]) b
     = (and_then (and_then (py_index b 0) (\<lambda>r0. Inr (length r0))) (\<lambda>n0.
       for_each (\<lambda>i. if int i \<noteq> col
                      then and_then (cell b row (int i)) (\<lambda>v. Inr (v \<noteq> num))
                      else Inr True) [0..<n0]), b)"
  proof (rule then_do_pure)
    show "read_len0 b = (and_then (py_index b 0) (\<lambda>r0. Inr (length r0)), b)"
      by (simp add: read_len0_def)
  next
    fix n0
    show "loop (\<lambda>i. if int i \<noteq> col
                  then then_do (read_cell row (int i)) (\<lambda>v. returns (v \<noteq> num))
                  else returns True) [0..<n0] b
          = (for_each (\<lambda>i. if int i \<noteq> col
                      then and_then (cell b row (int i)) (\<lambda>v. Inr (v \<noteq> num))
                      else Inr True) [0..<n0], b)"
      by (rule loop_pure) (simp add: read_cell_pure returns_apply)
  qed
  moreover have "and_then (and_then (py_index b 0) (\<lambda>r0. Inr (length r0))) f
                   = and_then (py_index b 0) (\<lambda>r0. f (length r0))" for f :: "nat \<Rightarrow> error + bool"
    by (cases "py_index b 0") simp_all
  ultimately show ?thesis
    by (simp add: row_scan_run_def row_scan_def)
qed

lemma col_scan_run_pure: "col_scan_run row col num b = (col_scan b row col num, b)"
proof -
  have "loop (\<lambda>i. if int i \<noteq> row
                  then then_do (read_cell (int i) col) (\<lambda>v. returns (v \<noteq> num))
                  else returns True) [0..<length b] b
          = (for_each (\<lambda>i. if int i \<noteq> row
                      then and_then (cell b (int i) col) (\<lambda>v. Inr (v \<noteq> num))
                      else Inr True) [0..<length b], b)"
    by (rule loop_pure) (simp add: read_cell_pure returns_apply)
  then show ?thesis
    by (simp only: col_scan_run_def col_scan_def then_do_read_len)
qed

lemma box_loops_pure:
  "loop (\<lambda>i. loop (\<lambda>j.
         if \<not> (y + int i = row \<and> x + int j = col)
         then then_do (read_cell (y + int i) (x + int j)) (\<lambda>v. returns (v \<noteq> num))
         else returns True) [0..<n]) [0..<n] b
   = (for_each (\<lambda>i. for_each (\<lambda>j.
          if \<not> (y + int i = row \<and> x + int j = col)
          then and_then (cell b (y + int i) (x + int j)) (\<lambda>v. Inr (v \<noteq> num))
          else Inr True) [0..<n]) [0..<n], b)"
proof (rule loop_pure)
  fix i
  show "loop (\<lambda>j.
         if \<not> (y + int i = row \<and> x + int j = col)
         then then_do (read_cell (y + int i) (x + int j)) (\<lambda>v. returns (v \<noteq> num))
         else returns True) [0..<n] b
       = (for_each (\<lambda>j.
          if \<not> (y + int i = row \<and> x + int j = col)
          then and_then (cell b (y + int i) (x + int j)) (\<lambda>v. Inr (v \<noteq> num))
          else Inr True) [0..<n], b)"
    by (rule loop_pure) (simp add: read_cell_pure returns_apply)
qed

lemma box_scan_run_pure: "box_scan_run row col num b = (box_scan b row col num, b)"
  unfolding box_scan_run_def box_scan_def Let_def then_do_read_len
  by (intro then_do_lift box_loops_pure)

lemma move_valid_run_pure: "move_valid_run row col num b = (move_valid b row col num, b)"
proof -
  have "then_do (col_scan_run row col num) (\<lambda>ok2. if \<not> ok2 then returns False else
          box_scan_run row col num) b
        = (and_then (col_scan b row col num) (\<lambda>ok2. if \<not> ok2 then Inr False else
          box_scan b row col num), b)"
    by (rule then_do_pure) (simp_all add: col_scan_run_pure box_scan_run_pure returns_apply)
  then have "then_do (row_scan_run row col num) (\<lambda>ok1. if \<not> ok1 then returns False else
     then_do (col_scan_run row col num) (\<lambda>ok2. if \<not> ok2 then returns False else
     box_scan_run row col num)) b
     = (and_then (row_scan b row col num) (\<lambda>ok1. if \<not> ok1 then Inr False else
     and_then (col_scan b row col num) (\<lambda>ok2. if \<not> ok2 then Inr False else
     box_scan b row col num)), b)"
    by (intro then_do_pure) (simp_all add: row_scan_run_pure returns_apply)
  then show ?thesis
    by (simp only: move_valid_run_def move_valid_def)
qed


lemma then_do_read_len0:
  assumes "\<And>n0. f n0 b = (g n0, b)"
  shows "then_do read_len0 f b = (and_then (py_index b 0) (\<lambda>r0. g (length r0)), b)"
proof -
  have "then_do read_len0 f b = (and_then (and_then (py_index b 0) (\<lambda>r0. Inr (length r0))) g, b)"
    by (rule then_do_pure) (simp_all add: read_len0_def assms)
  moreover have "and_then (and_then (py_index b 0) (\<lambda>r0. Inr (length r0))) g
                   = and_then (py_index b 0) (\<lambda>r0. g (length r0))"
    by (cases "py_index b 0") simp_all
  ultimately show ?thesis by simp
qed

lemma is_valid_run_pure: "is_valid_run b = (is_valid b, b)"
proof -
  have cellwise: "then_do (read_cell (int row) (int col)) (\<lambda>num. move_valid_run (int row) (int col) num) b
      = (and_then (cell b (int row) (int col)) (\<lambda>num. move_valid b (int row) (int col) num), b)"
    for row col
    by (rule then_do_pure) (simp_all add: read_cell_def move_valid_run_pure)
  have rowwise: "then_do read_len0 (\<lambda>n0.
           loop (\<lambda>col.
             then_do (read_cell (int row) (int col)) (\<lambda>num. move_valid_run (int row) (int col) num))
             [0..<n0]) b
      = (and_then (py_index b 0) (\<lambda>r0.
         for_each (\<lambda>col.
           and_then (cell b (int row) (int col)) (\<lambda>num. move_valid b (int row) (int col) num))
           [0..<length r0]), b)" for row
    by (rule then_do_read_len0, rule loop_pure) (rule cellwise)
  have "is_valid_run b =
     loop (\<lambda>row.
         then_do read_len0 (\<lambda>n0.
           loop (\<lambda>col.
             then_do (read_cell (int row) (int col)) (\<lambda>num. move_valid_run (int row) (int col) num))
             [0..<n0]))
         [0..<length b] b"
    by (simp only: is_valid_run_def move_valid_run_def then_do_read_len)
  also have "\<dots> = (for_each (\<lambda>row.
       and_then (py_index b 0) (\<lambda>r0.
         for_each (\<lambda>col.
           and_then (cell b (int row) (int col)) (\<lambda>num. move_valid b (int row) (int col) num))
           [0..<length r0]))
       [0..<length b], b)"
    by (rule loop_pure) (rule rowwise)
  finally show ?thesis
    by (simp only: is_valid_via_move_valid)
qed

text \<open>
  Claim C9. \<^verbatim>\<open>move_valid\<close> and \<^verbatim>\<open>is_valid\<close> never mutate the grid: run as steps on the
  shared board, each leaves the board it was given and returns the value that the
  function of the board computes, so a second call on the board that the first one left
  gives the same result and the same board.
\<close>

theorem checker_leaves_board:
  "move_valid_run row col num b = (move_valid b row col num, b) \<and>
   is_valid_run b = (is_valid b, b) \<and>
   move_valid_run row col num (snd (move_valid_run row col num b)) = move_valid_run row col num b \<and>
   is_valid_run (snd (is_valid_run b)) = is_valid_run b"
  by (simp add: move_valid_run_pure is_valid_run_pure)

theorem checker_leaves_board_witness:
  "move_valid_run 0 1 5 two_open = (move_valid two_open 0 1 5, two_open) \<and>
   is_valid_run two_open = (is_valid two_open, two_open) \<and>
   move_valid_run 0 1 5 (snd (move_valid_run 0 1 5 two_open)) = move_valid_run 0 1 5 two_open \<and>
   is_valid_run (snd (is_valid_run two_open)) = is_valid_run two_open"
  by (rule checker_leaves_board)

end
